theory Spec2Isabelle
  imports Main
begin

section \<open>Python strings\<close>

text \<open>
  A Python \<open>str\<close> is modelled as a list of 8-bit characters, read as the code points
  0..255. The character predicates below are Python's on that range.
\<close>

abbreviation NL :: char where "NL \<equiv> CHR 0x0A"
abbreviation DQ :: char where "DQ \<equiv> CHR 0x22"
abbreviation BSL :: char where "BSL \<equiv> CHR 0x5C"

definition isspace :: "char \<Rightarrow> bool" where
  \<comment> \<open>the characters \<open>str.strip()\<close> removes: TAB..CR, FS..US, space, NEL, NBSP\<close>
  "isspace c = (let n = (of_char c :: nat) in
     (9 \<le> n \<and> n \<le> 13) \<or> (28 \<le> n \<and> n \<le> 32) \<or> n = 133 \<or> n = 160)"

definition isdecimal :: "char \<Rightarrow> bool" where
  "isdecimal c = (let n = (of_char c :: nat) in 48 \<le> n \<and> n \<le> 57)"

definition isdigit_char :: "char \<Rightarrow> bool" where
  \<comment> \<open>\<open>str.isdigit\<close> also accepts the superscript digits U+00B2, U+00B3, U+00B9\<close>
  "isdigit_char c = (let n = (of_char c :: nat) in
     (48 \<le> n \<and> n \<le> 57) \<or> n = 178 \<or> n = 179 \<or> n = 185)"

definition isdigit :: "string \<Rightarrow> bool" where
  "isdigit s = (s \<noteq> [] \<and> list_all isdigit_char s)"

definition lower_char :: "char \<Rightarrow> char" where
  "lower_char c = (let n = (of_char c :: nat) in
     if (65 \<le> n \<and> n \<le> 90) \<or> (192 \<le> n \<and> n \<le> 222 \<and> n \<noteq> 215)
     then char_of (n + 32) else c)"

definition lower :: "string \<Rightarrow> string" where
  "lower s = map lower_char s"

definition lstrip :: "string \<Rightarrow> string" where
  "lstrip s = dropWhile isspace s"

definition rstrip :: "string \<Rightarrow> string" where
  "rstrip s = rev (dropWhile isspace (rev s))"

definition strip :: "string \<Rightarrow> string" where
  "strip s = lstrip (rstrip s)"

definition startswith :: "string \<Rightarrow> string \<Rightarrow> bool" where
  "startswith s p = (take (length p) s = p)"

definition endswith :: "string \<Rightarrow> string \<Rightarrow> bool" where
  "endswith s p = (length p \<le> length s \<and> drop (length s - length p) s = p)"

fun split_on :: "char \<Rightarrow> string \<Rightarrow> string list" where
  \<comment> \<open>\<open>s.split(c)\<close> for a one-character separator\<close>
  "split_on c [] = [[]]"
| "split_on c (x # xs) =
     (if x = c then [] # split_on c xs
      else (case split_on c xs of [] \<Rightarrow> [[x]] | y # ys \<Rightarrow> (x # y) # ys))"

definition split1 :: "char \<Rightarrow> string \<Rightarrow> string list" where
  \<comment> \<open>\<open>s.split(c, 1)\<close>: at most one split, at the first occurrence\<close>
  "split1 c s = (if c \<in> set s
     then [takeWhile (\<lambda>x. x \<noteq> c) s, tl (dropWhile (\<lambda>x. x \<noteq> c) s)]
     else [s])"

fun join :: "string \<Rightarrow> string list \<Rightarrow> string" where
  \<comment> \<open>\<open>sep.join(xs)\<close>\<close>
  "join sep [] = []"
| "join sep [x] = x"
| "join sep (x # y # ys) = x @ sep @ join sep (y # ys)"

definition replace_char :: "char \<Rightarrow> string \<Rightarrow> string \<Rightarrow> string" where
  \<comment> \<open>\<open>s.replace(a, new)\<close> for a one-character \<open>a\<close>\<close>
  "replace_char a new s = concat (map (\<lambda>x. if x = a then new else [x]) s)"

fun replace2 :: "char \<Rightarrow> char \<Rightarrow> string \<Rightarrow> string \<Rightarrow> string" where
  \<comment> \<open>\<open>s.replace(ab, new)\<close> for a two-character \<open>ab\<close>: leftmost, non-overlapping\<close>
  "replace2 a b new (x # y # s) =
     (if x = a \<and> y = b then new @ replace2 a b new s else x # replace2 a b new (y # s))"
| "replace2 a b new s = s"

definition digit_char :: "nat \<Rightarrow> char" where
  "digit_char d = char_of (48 + d)"

fun str_nat :: "nat \<Rightarrow> string" where
  "str_nat n = (if n < 10 then [digit_char n] else str_nat (n div 10) @ [digit_char (n mod 10)])"

declare str_nat.simps [simp del]

definition str_int :: "int \<Rightarrow> string" where
  \<comment> \<open>\<open>str(n)\<close> for a Python int\<close>
  "str_int n = (if n < 0 then CHR ''-'' # str_nat (nat (- n)) else str_nat (nat n))"

definition nat_of_digits :: "string \<Rightarrow> nat" where
  "nat_of_digits s = foldl (\<lambda>a c. 10 * a + (of_char c - 48)) 0 s"

section \<open>Values\<close>

text \<open>
  The values the codec handles are Python's \<open>None\<close>, \<open>bool\<close>, \<open>int\<close>, \<open>float\<close>,
  \<open>str\<close>, \<open>dict\<close> (insertion-ordered, keys unique: an association list) and \<open>list\<close>.
  Floats are IEEE doubles, left abstract as the type parameter \<open>'f\<close>.
\<close>

datatype 'f pyval =
    PNone
  | PBool bool
  | PInt int
  | PFloat 'f
  | PStr string
  | PDict "(string \<times> 'f pyval) list"
  | PList "'f pyval list"

datatype py_error = ValueError

text \<open>
  Library routines the module calls and does not define: \<open>str\<close> and \<open>float\<close> on floats,
  \<open>str\<close> on a dict or list (their \<open>repr\<close>), and the \<open>json\<close> module.
\<close>

record 'f builtins =
  float_str :: "'f \<Rightarrow> string"
  float_of_str :: "string \<Rightarrow> 'f"
  container_str :: "'f pyval \<Rightarrow> string"
  json_dumps :: "'f pyval \<Rightarrow> string"
  json_encode_indent2 :: "'f pyval \<Rightarrow> string"
  json_loads :: "string \<Rightarrow> 'f pyval option"

definition py_str :: "'f builtins \<Rightarrow> 'f pyval \<Rightarrow> string" where
  \<comment> \<open>Python's \<open>str(v)\<close>\<close>
  "py_str B v = (case v of
       PNone \<Rightarrow> ''None''
     | PBool b \<Rightarrow> (if b then ''True'' else ''False'')
     | PInt n \<Rightarrow> str_int n
     | PFloat x \<Rightarrow> float_str B x
     | PStr s \<Rightarrow> s
     | PDict d \<Rightarrow> container_str B v
     | PList a \<Rightarrow> container_str B v)"

definition dict_get :: "(string \<times> 'v) list \<Rightarrow> string \<Rightarrow> 'v \<Rightarrow> 'v" where
  \<comment> \<open>\<open>d.get(k, default)\<close>\<close>
  "dict_get d k dflt = (case map_of d k of Some v \<Rightarrow> v | None \<Rightarrow> dflt)"

fun dict_set :: "(string \<times> 'v) list \<Rightarrow> string \<Rightarrow> 'v \<Rightarrow> (string \<times> 'v) list" where
  \<comment> \<open>\<open>d[k] = v\<close>: an existing key keeps its position\<close>
  "dict_set [] k v = [(k, v)]"
| "dict_set ((k', v') # d) k v = (if k' = k then (k, v) # d else (k', v') # dict_set d k v)"

definition dict_of_pairs :: "(string \<times> 'v) list \<Rightarrow> (string \<times> 'v) list" where
  \<comment> \<open>\<open>dict(pairs)\<close>\<close>
  "dict_of_pairs ps = foldl (\<lambda>d (k, v). dict_set d k v) [] ps"

section \<open>Encoder\<close>

datatype DataType = OBJECT | ARRAY | STRING | NUMBER | BOOLEAN | NULL

record TOONConfig =
  indent_size :: int
  use_commas :: bool
  compact_strings :: bool
  max_nesting_depth :: int
  prefer_arrays :: bool

definition default_config :: TOONConfig where
  "default_config = \<lparr> indent_size = 2, use_commas = True, compact_strings = False,
     max_nesting_depth = 3, prefer_arrays = True \<rparr>"

definition get_data_type :: "'f pyval \<Rightarrow> DataType" where
  \<comment> \<open>the \<open>isinstance\<close> chain; a \<open>bool\<close> is an \<open>int\<close>, so it is caught by the number test\<close>
  "get_data_type data = (case data of
       PDict d \<Rightarrow> OBJECT
     | PList a \<Rightarrow> ARRAY
     | PStr s \<Rightarrow> STRING
     | PInt n \<Rightarrow> NUMBER
     | PFloat x \<Rightarrow> NUMBER
     | PBool b \<Rightarrow> NUMBER
     | PNone \<Rightarrow> NULL)"

definition escape :: "string \<Rightarrow> string" where
  \<comment> \<open>\<open>value.replace('"', '""').replace('\n', '\\n')\<close>\<close>
  "escape s = replace_char NL [BSL, CHR ''n''] (replace_char DQ [DQ, DQ] s)"

definition encode_string :: "TOONConfig \<Rightarrow> string \<Rightarrow> string" where
  "encode_string c s =
     (if compact_strings c \<and> \<not> (\<exists>x \<in> set [CHR '','', NL, CHR '':'', CHR '' '']. x \<in> set s)
      then s else [DQ] @ escape s @ [DQ])"

definition encode_simple_value :: "'f builtins \<Rightarrow> TOONConfig \<Rightarrow> 'f pyval \<Rightarrow> string" where
  "encode_simple_value B c v = (case v of
       PNone \<Rightarrow> ''null''
     | PBool b \<Rightarrow> lower (py_str B v)
     | PInt n \<Rightarrow> py_str B v
     | PFloat x \<Rightarrow> py_str B v
     | PStr s \<Rightarrow> encode_string c s
     | PDict d \<Rightarrow> json_dumps B v
     | PList a \<Rightarrow> json_dumps B v)"

definition is_tabular :: "(string \<times> 'f pyval) list \<Rightarrow> bool" where
  "is_tabular obj = (case map snd obj of [PList a] \<Rightarrow> True | _ \<Rightarrow> False)"

definition is_uniform_array :: "'f pyval list \<Rightarrow> bool" where
  "is_uniform_array arr =
     (if length arr \<le> 1 then False
      else (case hd arr of
          PDict first \<Rightarrow>
            list_all (\<lambda>item. case item of
                PDict d \<Rightarrow> set (map fst d) = set (map fst first)
              | _ \<Rightarrow> False) (tl arr)
        | _ \<Rightarrow> False))"

definition dict_items :: "'f pyval list \<Rightarrow> (string \<times> 'f pyval) list list" where
  \<comment> \<open>the elements of a list that are dicts (all of them, for a uniform array)\<close>
  "dict_items arr = List.map_filter (\<lambda>v. case v of PDict d \<Rightarrow> Some d | _ \<Rightarrow> None) arr"

definition uniform_field :: "'f builtins \<Rightarrow> 'f pyval \<Rightarrow> string" where
  \<comment> \<open>one cell of \<open>_encode_uniform_array\<close>\<close>
  "uniform_field B val = (case val of
       PStr s \<Rightarrow> (if CHR '','' \<in> set s \<or> NL \<in> set s then [DQ] @ escape s @ [DQ] else s)
     | PNone \<Rightarrow> ''null''
     | _ \<Rightarrow> py_str B val)"

definition encode_uniform_array :: "'f builtins \<Rightarrow> (string \<times> 'f pyval) list list \<Rightarrow> string" where
  "encode_uniform_array B arr = (case arr of
       [] \<Rightarrow> ''[]''
     | first # _ \<Rightarrow>
         (let columns = map fst first;
              header = ''['' @ str_nat (length arr) @ '']{'' @ join '','' columns @ ''}:'';
              rows = map (\<lambda>item. ''  '' @
                       join '','' (map (\<lambda>col. uniform_field B (dict_get item col (PStr ''''))) columns)) arr
          in header @ [NL] @ join [NL] rows))"

definition tabular_field :: "'f builtins \<Rightarrow> 'f pyval \<Rightarrow> string" where
  \<comment> \<open>one cell of \<open>_encode_tabular_object\<close>\<close>
  "tabular_field B val = (case val of
       PStr s \<Rightarrow> (if CHR '','' \<in> set s \<or> CHR '' '' \<in> set s then [DQ] @ s @ [DQ] else s)
     | _ \<Rightarrow> py_str B val)"

definition find_array :: "(string \<times> 'f pyval) list \<Rightarrow> (string \<times> 'f pyval list) option" where
  \<comment> \<open>the first entry holding a non-empty list\<close>
  "find_array obj = (case List.map_filter (\<lambda>(k, v). case v of
        PList a \<Rightarrow> (if a \<noteq> [] then Some (k, a) else None) | _ \<Rightarrow> None) obj
      of [] \<Rightarrow> None | p # _ \<Rightarrow> Some p)"

text \<open>
  The header of \<open>_encode_tabular_object\<close>, line 107 of the source, is written
  \<^verbatim>\<open>f"{array_key}[{len(array_value)]}{{{','.join(columns)}}}:"\<close>. The closing brace and the
  closing bracket after \<open>len(array_value)\<close> are transposed, so the line is not a well-formed
  f-string and the module, as written, does not compile. \<open>tabular_text\<close> reads the two
  characters in their order, \<^verbatim>\<open>[{len(array_value)}]\<close>, as the header of
  \<open>_encode_uniform_array\<close> and the pattern of \<open>_decode_tabular\<close> have them: the header is
  \<open>key[n]{columns}:\<close>. The class name written \<open>Droid TOONIntegration\<close> on lines 418 and 547
  is likewise read as the one identifier \<open>DroidTOONIntegration\<close>.
\<close>

definition tabular_text :: "'f builtins \<Rightarrow> string \<Rightarrow> 'f pyval list \<Rightarrow> (string \<times> 'f pyval) list \<Rightarrow> string" where
  \<comment> \<open>header and rows of \<open>_encode_tabular_object\<close>, for the columns of the first row\<close>
  "tabular_text B array_key array_value first =
     (let columns = map fst first;
          header = array_key @ ''['' @ str_nat (length array_value) @ '']{''
                     @ join '','' columns @ ''}:'';
          rows = map (\<lambda>item. ''  '' @
                   join '','' (map (\<lambda>col. tabular_field B (dict_get item col (PStr ''''))) columns))
                   (dict_items array_value)
      in header @ [NL] @ join [NL] rows)"

lemma size_dict_entry:
  "(k, v) \<in> set obj \<Longrightarrow> size v < size (PDict obj)"
  by (induction obj) auto

lemma size_list_entry:
  "v \<in> set arr \<Longrightarrow> size v < size (PList arr)"
  by (induction arr) auto

lemma size_enumerate_entry:
  "(i, v) \<in> set (enumerate n arr) \<Longrightarrow> size v < size (PList arr)"
  by (rule size_list_entry) (auto simp: in_set_enumerate_eq)

function (sequential)
      encode :: "'f builtins \<Rightarrow> TOONConfig \<Rightarrow> 'f pyval \<Rightarrow> string"
  and encode_object :: "'f builtins \<Rightarrow> TOONConfig \<Rightarrow> (string \<times> 'f pyval) list \<Rightarrow> string"
  and encode_tabular_object :: "'f builtins \<Rightarrow> TOONConfig \<Rightarrow> (string \<times> 'f pyval) list \<Rightarrow> string"
  and encode_simple_object :: "'f builtins \<Rightarrow> TOONConfig \<Rightarrow> (string \<times> 'f pyval) list \<Rightarrow> string"
  and encode_array :: "'f builtins \<Rightarrow> TOONConfig \<Rightarrow> 'f pyval list \<Rightarrow> string"
where
  "encode B c PNone = ''null''"
| "encode B c (PDict obj) = encode_object B c obj"
| "encode B c (PList arr) = encode_array B c arr"
| "encode B c (PStr s) = encode_string c s"
| "encode B c v = py_str B v"
| "encode_object B c obj =
     (if obj = [] then ''{}''
      else if is_tabular obj then encode_tabular_object B c obj
      else encode_simple_object B c obj)"
| "encode_tabular_object B c obj =
     (case find_array obj of
        None \<Rightarrow> encode_simple_object B c obj
      | Some (array_key, array_value) \<Rightarrow>
          (case hd array_value of
             PDict first \<Rightarrow> tabular_text B array_key array_value first
           | _ \<Rightarrow> encode_simple_object B c obj))"
| "encode_simple_object B c obj =
     join [NL] (map (\<lambda>(key, v). case v of
         PDict d \<Rightarrow>
           (if d \<noteq> [] \<and> 0 < max_nesting_depth c
            then key @ '':'' @ [NL] @ replicate (nat (indent_size c)) CHR '' '' @ encode_object B c d
            else key @ '': '' @ json_dumps B v)
       | PList a \<Rightarrow>
           (if a \<noteq> [] \<and> 0 < max_nesting_depth c
            then key @ '':'' @ [NL] @ replicate (nat (indent_size c)) CHR '' '' @ encode_array B c a
            else key @ '': '' @ json_dumps B v)
       | _ \<Rightarrow> key @ '': '' @ encode_simple_value B c v) obj)"
| "encode_array B c arr =
     (if arr = [] then ''[]''
      else if is_uniform_array arr then encode_uniform_array B (dict_items arr)
      else join [NL] (map (\<lambda>(i, item). str_nat i @ '': '' @ encode B c item) (enumerate 0 arr)))"
  by pat_completeness auto

termination
  apply (relation "measure (\<lambda>x. case x of
      Inl (Inl (B, c, v)) \<Rightarrow> 5 * size v + 4
    | Inl (Inr (B, c, obj)) \<Rightarrow> 5 * size (PDict obj) + 3
    | Inr (Inl (B, c, obj)) \<Rightarrow> 5 * size (PDict obj) + 2
    | Inr (Inr (Inl (B, c, obj))) \<Rightarrow> 5 * size (PDict obj) + 1
    | Inr (Inr (Inr (B, c, arr))) \<Rightarrow> 5 * size (PList arr) + 3)")
          apply simp_all
    apply (auto dest!: size_dict_entry size_enumerate_entry)
  done

section \<open>Decoder\<close>

definition is_tabular_format :: "string \<Rightarrow> bool" where
  "is_tabular_format first_line =
     (CHR ''['' \<in> set first_line \<and> CHR '']'' \<in> set first_line \<and>
      CHR ''{'' \<in> set first_line \<and> CHR ''}'' \<in> set first_line \<and>
      endswith first_line '':'')"

text \<open>
  The header pattern \<^verbatim>\<open>^(.+)\[(\d+)\]\{(.+)\}:\<close> of \<open>_decode_tabular\<close>, matched as
  \<open>re.match\<close> does: each \<^verbatim>\<open>.+\<close> is greedy and does not cross a newline, and the first
  match in backtracking order is returned (the longest key, then the longest column text).
\<close>

definition match_columns :: "string \<Rightarrow> string option" where
  \<comment> \<open>\<^verbatim>\<open>(.+)\}:\<close> at the start of \<open>u\<close>\<close>
  "match_columns u =
     (case filter (\<lambda>n. take 2 (drop n u) = ''}:'' \<and> NL \<notin> set (take n u)) (rev [1..<length u]) of
        [] \<Rightarrow> None
      | n # _ \<Rightarrow> Some (take n u))"

definition match_tail :: "string \<Rightarrow> (string \<times> string) option" where
  \<comment> \<open>\<^verbatim>\<open>\[(\d+)\]\{(.+)\}:\<close> at the start of \<open>s\<close>\<close>
  "match_tail s = (case s of
       [] \<Rightarrow> None
     | c # t \<Rightarrow>
         (if c \<noteq> CHR ''['' \<or> takeWhile isdecimal t = [] then None
          else (case dropWhile isdecimal t of
              a # b # u \<Rightarrow>
                (if a = CHR '']'' \<and> b = CHR ''{''
                 then map_option (Pair (takeWhile isdecimal t)) (match_columns u) else None)
            | _ \<Rightarrow> None)))"

definition match_header :: "string \<Rightarrow> (string \<times> string \<times> string) option" where
  "match_header h =
     (case filter (\<lambda>n. NL \<notin> set (take n h) \<and> match_tail (drop n h) \<noteq> None) (rev [1..<length h]) of
        [] \<Rightarrow> None
      | n # _ \<Rightarrow> map_option (\<lambda>(count, cols). (take n h, count, cols)) (match_tail (drop n h)))"

fun csv_loop :: "string \<Rightarrow> string list \<Rightarrow> string \<Rightarrow> bool \<Rightarrow> string list" where
  \<comment> \<open>the loop of \<open>_parse_csv_line\<close> over the state \<open>(values, current, in_quotes)\<close>\<close>
  "csv_loop [] values current in_quotes = values @ [current]"
| "csv_loop (char # line) values current in_quotes =
     (if in_quotes then
        (if char = DQ then csv_loop line values current False
         else csv_loop line values (current @ [char]) True)
      else if char = DQ then csv_loop line values current True
      else if char = CHR '','' then csv_loop line (values @ [current]) [] False
      else csv_loop line values (current @ [char]) False)"

definition parse_csv_line :: "string \<Rightarrow> string list" where
  "parse_csv_line line = csv_loop line [] [] False"

definition py_int :: "string \<Rightarrow> py_error + 'f pyval" where
  \<comment> \<open>\<open>int(s)\<close> for a string that passed \<open>isdigit\<close>: a superscript digit is refused
     (the interpreter's limit on the number of digits is not modelled)\<close>
  "py_int s = (if s \<noteq> [] \<and> list_all isdecimal s
     then Inr (PInt (int (nat_of_digits s))) else Inl ValueError)"

definition float_literal :: "string \<Rightarrow> bool" where
  \<comment> \<open>the strings of digit characters, dots and minus signs that \<open>float\<close> accepts\<close>
  "float_literal s =
     (let body = (case s of [] \<Rightarrow> s | c # t \<Rightarrow> if c = CHR ''-'' then t else s) in
      list_all (\<lambda>c. isdecimal c \<or> c = CHR ''.'') body \<and>
      length (filter (\<lambda>c. c = CHR ''.'') body) \<le> 1 \<and>
      list_ex isdecimal body)"

definition py_float :: "'f builtins \<Rightarrow> string \<Rightarrow> py_error + 'f pyval" where
  \<comment> \<open>\<open>float(s)\<close> for a string of digit characters, dots and minus signs\<close>
  "py_float B s = (if float_literal s then Inr (PFloat (float_of_str B s)) else Inl ValueError)"

definition convert_value :: "'f builtins \<Rightarrow> string \<Rightarrow> py_error + 'f pyval" where
  "convert_value B v =
     (if lower v = ''null'' then Inr PNone
      else if lower v = ''true'' then Inr (PBool True)
      else if lower v = ''false'' then Inr (PBool False)
      else if isdigit v then py_int v
      else if isdigit (replace_char CHR ''-'' [] (replace_char CHR ''.'' [] v)) then py_float B v
      else Inr (PStr v))"

definition unescape :: "string \<Rightarrow> string" where
  \<comment> \<open>\<open>s.replace('""', '"').replace('\\n', '\n')\<close>\<close>
  "unescape s = replace2 BSL CHR ''n'' [NL] (replace2 DQ DQ [DQ] s)"

definition parse_value :: "'f builtins \<Rightarrow> string list \<Rightarrow> py_error + 'f pyval" where
  "parse_value B value_list = (case value_list of
       [] \<Rightarrow> Inr (PStr [])
     | [v] \<Rightarrow>
         (if startswith v [DQ] \<and> endswith v [DQ] then Inr (PStr (unescape (butlast (tl v))))
          else if lower v = ''null'' then Inr PNone
          else if lower v = ''true'' then Inr (PBool True)
          else if lower v = ''false'' then Inr (PBool False)
          else if isdigit v then py_int v
          else if isdigit (replace_char CHR ''-'' [] (replace_char CHR ''.'' [] v)) then py_float B v
          else Inr (PStr v))
     | _ \<Rightarrow> Inr (PStr (join '' '' value_list)))"

record 'f kv_state =
  result :: "(string \<times> 'f pyval) list"
  current_key :: "string option"
  current_value :: "string list"
  in_multiline :: bool

definition kv_init :: "'f kv_state" where
  "kv_init = \<lparr> result = [], current_key = None, current_value = [], in_multiline = False \<rparr>"

definition save_current :: "'f builtins \<Rightarrow> 'f kv_state \<Rightarrow> py_error + (string \<times> 'f pyval) list" where
  \<comment> \<open>\<open>if current_key is not None: result[current_key] = self._parse_value(current_value)\<close>\<close>
  "save_current B st = (case current_key st of
       None \<Rightarrow> Inr (result st)
     | Some k \<Rightarrow> (case parse_value B (current_value st) of
           Inl e \<Rightarrow> Inl e
         | Inr v \<Rightarrow> Inr (dict_set (result st) k v)))"

definition kv_step :: "'f builtins \<Rightarrow> 'f kv_state \<Rightarrow> string \<Rightarrow> py_error + 'f kv_state" where
  \<comment> \<open>one iteration of the loop of \<open>_decode_key_value\<close>\<close>
  "kv_step B st raw =
     (let line = rstrip raw in
      if line = [] then
        Inr (if in_multiline st then st\<lparr>current_value := current_value st @ [[]]\<rparr> else st)
      else if CHR '':'' \<in> set line \<and> \<not> startswith line ''  '' \<and> \<not> startswith line [CHR 0x09] then
        (case save_current B st of
           Inl e \<Rightarrow> Inl e
         | Inr res \<Rightarrow>
             (case split1 CHR '':'' line of
                k # v # _ \<Rightarrow>
                  (if strip v \<noteq> []
                   then Inr \<lparr> result = res, current_key = Some (strip k),
                              current_value = [strip v], in_multiline = False \<rparr>
                   else Inr \<lparr> result = res, current_key = Some (strip k),
                              current_value = [], in_multiline = True \<rparr>)
              | [k] \<Rightarrow> Inr \<lparr> result = res, current_key = Some (strip k),
                              current_value = [], in_multiline = True \<rparr>
              | [] \<Rightarrow> Inr \<lparr> result = res, current_key = Some [],
                              current_value = [], in_multiline = True \<rparr>))
      else Inr (st\<lparr>current_value := current_value st @ [lstrip line]\<rparr>))"

fun kv_loop :: "'f builtins \<Rightarrow> 'f kv_state \<Rightarrow> string list \<Rightarrow> py_error + 'f kv_state" where
  "kv_loop B st [] = Inr st"
| "kv_loop B st (line # lines) =
     (case kv_step B st line of Inl e \<Rightarrow> Inl e | Inr st' \<Rightarrow> kv_loop B st' lines)"

definition decode_key_value :: "'f builtins \<Rightarrow> string list \<Rightarrow> py_error + 'f pyval" where
  "decode_key_value B lines = (case kv_loop B kv_init lines of
       Inl e \<Rightarrow> Inl e
     | Inr st \<Rightarrow> (case save_current B st of Inl e \<Rightarrow> Inl e | Inr res \<Rightarrow> Inr (PDict res)))"

fun convert_items :: "'f builtins \<Rightarrow> (string \<times> string) list \<Rightarrow> py_error + (string \<times> 'f pyval) list" where
  \<comment> \<open>\<open>for k, v in obj.items(): obj[k] = self._convert_value(v)\<close>\<close>
  "convert_items B [] = Inr []"
| "convert_items B ((k, v) # rest) =
     (case convert_value B v of
        Inl e \<Rightarrow> Inl e
      | Inr v' \<Rightarrow> (case convert_items B rest of
            Inl e \<Rightarrow> Inl e
          | Inr rest' \<Rightarrow> Inr ((k, v') # rest')))"

fun decode_rows :: "'f builtins \<Rightarrow> string list \<Rightarrow> string list \<Rightarrow> py_error + 'f pyval list" where
  \<comment> \<open>the row loop of \<open>_decode_tabular\<close>\<close>
  "decode_rows B columns [] = Inr []"
| "decode_rows B columns (raw # lines) =
     (if strip raw = [] then decode_rows B columns lines
      else (case convert_items B (dict_of_pairs (zip columns (parse_csv_line (strip raw)))) of
          Inl e \<Rightarrow> Inl e
        | Inr obj \<Rightarrow> (case decode_rows B columns lines of
              Inl e \<Rightarrow> Inl e
            | Inr data \<Rightarrow> Inr (PDict obj # data))))"

definition decode_tabular :: "'f builtins \<Rightarrow> string list \<Rightarrow> py_error + 'f pyval" where
  "decode_tabular B lines = (case lines of
       [] \<Rightarrow> Inr (PDict [])
     | header # rest \<Rightarrow>
         (case match_header header of
            None \<Rightarrow> decode_key_value B lines
          | Some (key, count, columns_str) \<Rightarrow>
              (case decode_rows B (map strip (split_on CHR '','' columns_str)) rest of
                 Inl e \<Rightarrow> Inl e
               | Inr data \<Rightarrow> Inr (PDict [(strip key, PList data)]))))"

definition decode :: "'f builtins \<Rightarrow> string \<Rightarrow> py_error + 'f pyval" where
  "decode B toon_str = (case split_on NL (strip toon_str) of
       [] \<Rightarrow> Inr PNone
     | first_line # rest \<Rightarrow>
         (if is_tabular_format first_line then decode_tabular B (first_line # rest)
          else decode_key_value B (first_line # rest)))"

section \<open>Integration\<close>

definition is_toon_suitable :: "'f pyval \<Rightarrow> bool" where
  "is_toon_suitable data = (case data of
       PList a \<Rightarrow> 1 < length a \<and> list_all (\<lambda>item. case item of PDict d \<Rightarrow> True | _ \<Rightarrow> False) (take 3 a)
     | PDict d \<Rightarrow> 0 < length (filter (\<lambda>v. case v of PList a \<Rightarrow> 1 < length a | _ \<Rightarrow> False) (map snd d))
     | _ \<Rightarrow> False)"

definition should_use_toon :: "'f pyval \<Rightarrow> string \<Rightarrow> bool" where
  "should_use_toon data context =
     (if context = ''tool_result'' then is_toon_suitable data
      else (case data of
          PDict d \<Rightarrow>
            (case filter (\<lambda>v. case v of PList a \<Rightarrow> 2 < length a | _ \<Rightarrow> False) (map snd d) of
               [] \<Rightarrow> False
             | v # _ \<Rightarrow> is_toon_suitable v)
        | _ \<Rightarrow> False))"

definition format_toon :: "'f builtins \<Rightarrow> TOONConfig \<Rightarrow> 'f pyval \<Rightarrow> string" where
  "format_toon B c data = ''// TOON format - 30-60% token reduction'' @ [NL] @ encode B c data"

definition format_json :: "'f builtins \<Rightarrow> 'f pyval \<Rightarrow> string" where
  "format_json B data = json_encode_indent2 B data"

definition format_for_droid :: "'f builtins \<Rightarrow> TOONConfig \<Rightarrow> 'f pyval \<Rightarrow> string \<Rightarrow> string" where
  "format_for_droid B c data context =
     (if should_use_toon data context then format_toon B c data else format_json B data)"

definition parse_droid_response :: "'f builtins \<Rightarrow> string \<Rightarrow> py_error + 'f pyval" where
  "parse_droid_response B response =
     (if startswith (strip response) ''// TOON format''
      then decode B (join [NL] (tl (split_on NL response)))
      else (case json_loads B response of Some v \<Rightarrow> Inr v | None \<Rightarrow> Inr (PStr response)))"

section \<open>Notions used to state the properties\<close>

definition is_dict :: "'f pyval \<Rightarrow> bool" where
  "is_dict v = (case v of PDict d \<Rightarrow> True | _ \<Rightarrow> False)"

definition key_set :: "'f pyval \<Rightarrow> string set" where
  "key_set v = (case v of PDict d \<Rightarrow> set (map fst d) | _ \<Rightarrow> {})"

definition sample_builtins :: "unit builtins" where
  "sample_builtins = \<lparr> float_str = (\<lambda>_. ''0.0''), float_of_str = (\<lambda>_. ()),
     container_str = (\<lambda>_. ''[]''), json_dumps = (\<lambda>_. ''[]''),
     json_encode_indent2 = (\<lambda>_. ''[]''), json_loads = (\<lambda>_. None) \<rparr>"

text \<open>Whether the character \<open>a\<close> is directly followed by \<open>b\<close> somewhere in a string.\<close>

fun has_pair :: "char \<Rightarrow> char \<Rightarrow> string \<Rightarrow> bool" where
  "has_pair a b (x # y # s) = ((x = a \<and> y = b) \<or> has_pair a b (y # s))"
| "has_pair a b s = False"

text \<open>What \<open>escape\<close> puts for one character.\<close>

definition escape_char :: "char \<Rightarrow> string" where
  "escape_char x = (if x = DQ then [DQ, DQ] else if x = NL then [BSL, CHR ''n''] else [x])"

text \<open>A string with no white space at either end, as \<open>strip\<close> leaves it.\<close>

definition no_outer_space :: "string \<Rightarrow> bool" where
  "no_outer_space k = (k = [] \<or> (\<not> isspace (hd k) \<and> \<not> isspace (last k)))"

text \<open>
  The scalars that come back from a key/value line: \<open>None\<close>, booleans, integers that are
  not negative, and strings in which no backslash is directly followed by \<open>n\<close>.
\<close>

definition field_scalar :: "'f pyval \<Rightarrow> bool" where
  "field_scalar v = (case v of
       PNone \<Rightarrow> True
     | PBool b \<Rightarrow> True
     | PInt n \<Rightarrow> 0 \<le> n
     | PStr s \<Rightarrow> \<not> has_pair BSL CHR ''n'' s
     | _ \<Rightarrow> False)"

text \<open>
  A string that a table cell carries unchanged: not empty, without double quote or
  newline, without white space at either end, and not read back as a keyword or a number.
\<close>

definition plain_text :: "string \<Rightarrow> bool" where
  "plain_text s = (s \<noteq> [] \<and> DQ \<notin> set s \<and> NL \<notin> set s \<and> no_outer_space s \<and>
     lower s \<noteq> ''null'' \<and> lower s \<noteq> ''true'' \<and> lower s \<noteq> ''false'' \<and>
     \<not> isdigit (replace_char CHR ''-'' [] (replace_char CHR ''.'' [] s)))"

text \<open>
  The cell values that come back from a table row: booleans, integers that are not
  negative, and such strings.
\<close>

definition table_cell :: "'f pyval \<Rightarrow> bool" where
  "table_cell v = (case v of
       PBool b \<Rightarrow> True
     | PInt n \<Rightarrow> 0 \<le> n
     | PStr s \<Rightarrow> plain_text s
     | _ \<Rightarrow> False)"

text \<open>
  A column name that the header carries unchanged.
\<close>

definition column_name :: "string \<Rightarrow> bool" where
  "column_name c = (c \<noteq> [] \<and> no_outer_space c \<and> CHR '','' \<notin> set c \<and> NL \<notin> set c \<and>
     CHR ''['' \<notin> set c)"

text \<open>
  A row restricted to the given columns, in their order; a missing column holds the
  empty string, as \<open>item.get(col, '')\<close> gives.
\<close>

definition reorder :: "string list \<Rightarrow> (string \<times> 'f pyval) list \<Rightarrow> (string \<times> 'f pyval) list" where
  "reorder cs d = map (\<lambda>c. (c, dict_get d c (PStr []))) cs"

text \<open>
  The text of one row of a keyed table, without its indentation.
\<close>

definition row_text :: "'f builtins \<Rightarrow> string list \<Rightarrow> (string \<times> 'f pyval) list \<Rightarrow> string" where
  "row_text B cs d = join '','' (map (\<lambda>col. tabular_field B (dict_get d col (PStr []))) cs)"

text \<open>
  The text of a float in plain decimal notation, as \<open>str\<close> gives it without an exponent:
  digits and one dot, after an optional minus sign.
\<close>

definition plain_decimal :: "string \<Rightarrow> bool" where
  "plain_decimal s = (float_literal s \<and> CHR ''.'' \<in> set s)"

text \<open>
  The library routines on a type of two floats, \<open>1.5\<close> and \<open>-0.25\<close>.
\<close>

definition sample_floats :: "bool builtins" where
  "sample_floats = \<lparr> float_str = (\<lambda>x. if x then ''1.5'' else ''-0.25''),
     float_of_str = (\<lambda>s. s = ''1.5''),
     container_str = (\<lambda>_. ''[]''), json_dumps = (\<lambda>_. ''[]''),
     json_encode_indent2 = (\<lambda>_. ''[]''), json_loads = (\<lambda>_. None) \<rparr>"


section \<open>Shape classification\<close>

lemma split_on_nonempty: "split_on c s \<noteq> []"
  by (induction s) (auto split: list.splits)

lemma digit_char_simps:
  "digit_char 0 = CHR ''0''" "digit_char 1 = CHR ''1''" "digit_char 2 = CHR ''2''"
  "digit_char 3 = CHR ''3''" "digit_char 4 = CHR ''4''" "digit_char 5 = CHR ''5''"
  "digit_char 6 = CHR ''6''" "digit_char 7 = CHR ''7''" "digit_char 8 = CHR ''8''"
  "digit_char 9 = CHR ''9''" "digit_char (Suc 0) = CHR ''1''"
  by code_simp+

lemma str_nat_small: "n < 10 \<Longrightarrow> str_nat n = [digit_char n]"
  by (simp add: str_nat.simps)

lemma uniform_short: "length arr < 2 \<Longrightarrow> \<not> is_uniform_array arr"
  by (simp add: is_uniform_array_def)

lemma uniform_all_dicts: "is_uniform_array arr \<Longrightarrow> v \<in> set arr \<Longrightarrow> is_dict v"
proof -
  assume u: "is_uniform_array arr" and v: "v \<in> set arr"
  from u obtain x rest where arr: "arr = x # rest"
    by (cases arr) (simp_all add: is_uniform_array_def)
  from u arr obtain first where x: "x = PDict first"
    by (cases x) (simp_all add: is_uniform_array_def split: if_splits)
  from u arr x have all: "\<forall>item \<in> set rest. is_dict item"
    by (auto simp: is_uniform_array_def list_all_iff is_dict_def split: if_splits pyval.splits)
  from v arr x all show "is_dict v" by (auto simp: is_dict_def)
qed

lemma item_keys:
  "is_dict v \<Longrightarrow> (case v of PDict d \<Rightarrow> set (map fst d) = K | _ \<Rightarrow> False) = (key_set v = K)"
  by (cases v) (simp_all add: is_dict_def key_set_def)

lemma list_all_keys:
  "\<forall>v \<in> set rest. is_dict v \<Longrightarrow>
   list_all (\<lambda>item. case item of PDict d \<Rightarrow> set (map fst d) = K | _ \<Rightarrow> False) rest
     = (\<forall>v \<in> set rest. key_set v = K)"
  by (induction rest) (simp_all add: item_keys del: set_map)

lemma uniform_iff:
  assumes len: "2 \<le> length arr" and dicts: "\<forall>v \<in> set arr. is_dict v"
  shows "is_uniform_array arr \<longleftrightarrow> (\<forall>v \<in> set arr. key_set v = key_set (hd arr))"
proof -
  from len obtain x rest where arr: "arr = x # rest"
    by (cases arr) simp_all
  from dicts arr obtain first where x: "x = PDict first"
    by (cases x) (simp_all add: is_dict_def)
  from dicts arr have rest: "\<forall>v \<in> set rest. is_dict v" by simp
  have "is_uniform_array arr \<longleftrightarrow> (\<forall>v \<in> set rest. key_set v = set (map fst first))"
    using len arr x by (auto simp add: is_uniform_array_def list_all_keys [OF rest] simp del: set_map)
  also have "\<dots> \<longleftrightarrow> (\<forall>v \<in> set arr. key_set v = key_set (hd arr))"
    using arr x by (simp add: key_set_def)
  finally show ?thesis .
qed

text \<open>
  C5, as the code has it. \<open>_is_uniform_array\<close> is false for an array of fewer than two
  elements and for an array holding an element that is not a dict; for two or more dicts
  it is true exactly when every element has the key set of the first. It decides how
  \<open>_encode_array\<close> renders an array: one that it rejects is rendered as one
  \<open>index: value\<close> line per element, never as a table; so is an array of one dict, and an
  array of two dicts whose key sets differ. An array that is the only value of a dict does
  not pass through it: \<open>_encode_tabular_object\<close> emits a table (with the header read as
  said at \<open>tabular_text\<close>) whenever the array starts with a dict, whatever its length and
  the keys of its other elements.
\<close>

theorem is_uniform_array_classification:
  "(length arr < 2 \<longrightarrow> \<not> is_uniform_array arr) \<and>
   ((\<exists>v \<in> set arr. \<not> is_dict v) \<longrightarrow> \<not> is_uniform_array arr) \<and>
   (2 \<le> length arr \<and> (\<forall>v \<in> set arr. is_dict v) \<longrightarrow>
      is_uniform_array arr = (\<forall>v \<in> set arr. key_set v = key_set (hd arr))) \<and>
   (arr \<noteq> [] \<and> \<not> is_uniform_array arr \<longrightarrow>
      encode B c (PList arr) =
        join [NL] (map (\<lambda>(i, item). str_nat i @ '': '' @ encode B c item) (enumerate 0 arr))) \<and>
   encode B c (PList [PDict d]) = ''0: '' @ encode B c (PDict d) \<and>
   (set (map fst d1) \<noteq> set (map fst d2) \<longrightarrow>
      encode B c (PList [PDict d1, PDict d2]) =
        ''0: '' @ encode B c (PDict d1) @ [NL] @ ''1: '' @ encode B c (PDict d2)) \<and>
   encode B c (PDict [(k, PList (PDict first # rest))])
     = tabular_text B k (PDict first # rest) first"
proof -
  have a: "length arr < 2 \<longrightarrow> \<not> is_uniform_array arr"
    by (simp add: uniform_short)
  have b: "(\<exists>v \<in> set arr. \<not> is_dict v) \<longrightarrow> \<not> is_uniform_array arr"
    using uniform_all_dicts by blast
  have c: "2 \<le> length arr \<and> (\<forall>v \<in> set arr. is_dict v) \<longrightarrow>
      is_uniform_array arr = (\<forall>v \<in> set arr. key_set v = key_set (hd arr))"
    using uniform_iff by blast
  have d: "arr \<noteq> [] \<and> \<not> is_uniform_array arr \<longrightarrow>
      encode B c (PList arr) =
        join [NL] (map (\<lambda>(i, item). str_nat i @ '': '' @ encode B c item) (enumerate 0 arr))"
    by simp
  have e: "encode B c (PList [PDict d]) = ''0: '' @ encode B c (PDict d)"
    by (simp add: is_uniform_array_def str_nat_small digit_char_simps)
  have f: "set (map fst d1) \<noteq> set (map fst d2) \<longrightarrow>
      encode B c (PList [PDict d1, PDict d2]) =
        ''0: '' @ encode B c (PDict d1) @ [NL] @ ''1: '' @ encode B c (PDict d2)"
    by (simp add: is_uniform_array_def str_nat_small digit_char_simps)
  have g: "encode B c (PDict [(k, PList (PDict first # rest))])
     = tabular_text B k (PDict first # rest) first"
    by (simp add: is_tabular_def find_array_def List.map_filter_simps)
  from a b c d e f g show ?thesis by (intro conjI)
qed

theorem is_uniform_array_classification_witness:
  "2 \<le> length [PDict [(''a'', PInt 1)], PDict [(''a'', PInt 2)] :: unit pyval] \<and>
   list_all is_dict [PDict [(''a'', PInt 1)], PDict [(''a'', PInt 2)] :: unit pyval] \<and>
   is_uniform_array [PDict [(''a'', PInt 1)], PDict [(''a'', PInt 2)] :: unit pyval]"
  using is_uniform_array_classification [of "[PDict [(''a'', PInt 1)], PDict [(''a'', PInt 2)]]",
      THEN conjunct2, THEN conjunct2, THEN conjunct1]
  by (simp add: is_dict_def key_set_def)

text \<open>
  An array of one dict, and an array of two dicts with different keys, each rejected by
  \<open>_is_uniform_array\<close>, are encoded as tables when they are the only value of a dict.
\<close>

theorem keyed_array_table_counterexample:
  "\<not> is_uniform_array [PDict [(''a'', PInt 1)] :: unit pyval] \<and>
   encode sample_builtins default_config (PDict [(''k'', PList [PDict [(''a'', PInt 1)]])])
     = ''k[1]{a}:'' @ [NL] @ ''  1'' \<and>
   \<not> is_uniform_array [PDict [(''a'', PInt 1)], PDict [(''b'', PInt 2)] :: unit pyval] \<and>
   encode sample_builtins default_config
      (PDict [(''k'', PList [PDict [(''a'', PInt 1)], PDict [(''b'', PInt 2)]])])
     = ''k[2]{a}:'' @ [NL] @ ''  1'' @ [NL] @ ''  ''"
  by code_simp

lemma lower_ascii_simps:
  "lower ''True'' = ''true''" "lower ''False'' = ''false''"
  by code_simp+

text \<open>
  C6, as the code has it. \<open>_is_tabular\<close> is true exactly for an object of one entry whose
  value is a list, the empty list included; it is false for no entry, for more than one
  entry and for a single entry that is not a list. The test for a non-empty list is made
  later, by \<open>_encode_tabular_object\<close>: for an empty list it finds no array and falls back to
  the nested rendering, and for a list that starts with a dict it emits the table.
\<close>

theorem is_tabular_classification:
  "is_tabular obj = (\<exists>k a. obj = [(k, PList a)]) \<and>
   encode B c (PDict [(k, PList [])]) = k @ '': '' @ json_dumps B (PList []) \<and>
   encode B c (PDict [(k, PList (PDict first # rest))])
     = tabular_text B k (PDict first # rest) first"
proof -
  have a: "is_tabular obj = (\<exists>k a. obj = [(k, PList a)])"
    by (auto simp: is_tabular_def split: list.splits pyval.splits)
  have b: "encode B c (PDict [(k, PList [])]) = k @ '': '' @ json_dumps B (PList [])"
    by (simp add: is_tabular_def find_array_def List.map_filter_simps)
  have c: "encode B c (PDict [(k, PList (PDict first # rest))])
     = tabular_text B k (PDict first # rest) first"
    by (simp add: is_tabular_def find_array_def List.map_filter_simps)
  from a b c show ?thesis by (intro conjI)
qed

theorem is_tabular_classification_witness:
  "is_tabular [(''k'', PList [PInt 1 :: unit pyval])] \<and>
   \<not> is_tabular [(''k'', PInt 1 :: unit pyval)] \<and>
   \<not> is_tabular [(''k'', PList []), (''j'', PList [] :: unit pyval)] \<and>
   \<not> is_tabular ([] :: (string \<times> unit pyval) list)"
  using is_tabular_classification [of "[(''k'', PList [PInt 1 :: unit pyval])]", THEN conjunct1]
    is_tabular_classification [of "[(''k'', PInt 1 :: unit pyval)]", THEN conjunct1]
    is_tabular_classification [of "[(''k'', PList []), (''j'', PList [] :: unit pyval)]", THEN conjunct1]
    is_tabular_classification [of "[] :: (string \<times> unit pyval) list", THEN conjunct1]
  by simp

text \<open>
  The claim that a single entry holding an empty array is classified false does not hold
  of \<open>_is_tabular\<close>.
\<close>

theorem is_tabular_empty_array_counterexample:
  "is_tabular [(''k'', PList ([] :: unit pyval list))]"
  by (simp add: is_tabular_def)

section \<open>Scalars in the encoder\<close>

text \<open>
  C8. \<open>encode\<close> renders \<open>None\<close> as \<open>null\<close>, but a top-level boolean goes through
  \<open>_get_data_type\<close>, where the \<open>int\<close> test catches it, and is rendered by \<open>str\<close> as
  \<open>True\<close> or \<open>False\<close>. \<open>_encode_simple_value\<close> tests \<open>bool\<close> first and lower-cases. The
  cells of a bare table are capitalised as well, and a cell of a keyed table renders
  \<open>None\<close> as \<open>None\<close>.
\<close>

theorem encode_bool_capitalised:
  "encode B c (PBool True) = ''True'' \<and>
   encode B c (PBool False) = ''False'' \<and>
   encode B c PNone = ''null'' \<and>
   get_data_type (PBool b :: 'f pyval) = NUMBER \<and>
   encode_simple_value B c (PBool True) = ''true'' \<and>
   encode_simple_value B c (PBool False) = ''false'' \<and>
   uniform_field B (PBool True) = ''True'' \<and>
   uniform_field B PNone = ''null'' \<and>
   tabular_field B PNone = ''None''"
  by (simp add: py_str_def get_data_type_def encode_simple_value_def uniform_field_def
      tabular_field_def lower_ascii_simps)

section \<open>The decoder returns dicts\<close>

lemma decode_key_value_dict: "decode_key_value B ls = Inr v \<Longrightarrow> \<exists>obj. v = PDict obj"
  by (auto simp: decode_key_value_def split: sum.splits)

lemma decode_tabular_dict: "decode_tabular B ls = Inr v \<Longrightarrow> \<exists>obj. v = PDict obj"
  by (auto simp: decode_tabular_def split: sum.splits list.splits option.splits
      dest: decode_key_value_dict)

lemma decode_dict: "decode B s = Inr v \<Longrightarrow> \<exists>obj. v = PDict obj"
  using split_on_nonempty [of NL "strip s"]
  by (auto simp: decode_def split: list.splits if_splits
      dest: decode_key_value_dict decode_tabular_dict)

text \<open>
  C10. Whenever \<open>decode\<close> returns, it returns a dict: the branch returning \<open>None\<close> is dead,
  since \<open>split\<close> never yields an empty list, and both parsers build a dict.
\<close>

theorem decode_returns_dict: "decode B s = Inr v \<Longrightarrow> \<exists>obj. v = PDict obj"
  by (rule decode_dict)

theorem decode_returns_dict_witness:
  "decode sample_builtins ''a: 1'' = Inr (PDict [(''a'', PInt 1)]) \<and>
   (\<exists>obj. PDict [(''a'', PInt 1 :: unit pyval)] = PDict obj)"
proof -
  have e: "decode sample_builtins ''a: 1'' = Inr (PDict [(''a'', PInt 1)])"
    by code_simp
  from decode_returns_dict [OF e] e show ?thesis by simp
qed

section \<open>Field quoting\<close>

lemma replace_char_absent: "a \<notin> set s \<Longrightarrow> replace_char a new s = s"
  by (induction s) (auto simp: replace_char_def)

lemma escape_plain: "DQ \<notin> set s \<Longrightarrow> NL \<notin> set s \<Longrightarrow> escape s = s"
  by (simp add: escape_def replace_char_absent)

lemma csv_loop_quoted:
  "DQ \<notin> set s \<Longrightarrow> csv_loop (s @ rest) vs cur True = csv_loop rest vs (cur @ s) True"
  by (induction s arbitrary: cur) auto

lemma csv_loop_bare:
  "DQ \<notin> set s \<Longrightarrow> CHR '','' \<notin> set s \<Longrightarrow>
   csv_loop (s @ rest) vs cur False = csv_loop rest vs (cur @ s) False"
  by (induction s arbitrary: cur) auto

lemma parse_csv_quoted: "DQ \<notin> set s \<Longrightarrow> parse_csv_line ([DQ] @ s @ [DQ]) = [s]"
  using csv_loop_quoted [of s "[DQ]" "[]" "[]"] by (simp add: parse_csv_line_def)

lemma parse_csv_bare: "DQ \<notin> set s \<Longrightarrow> CHR '','' \<notin> set s \<Longrightarrow> parse_csv_line s = [s]"
  using csv_loop_bare [of s "[]" "[]" "[]"] by (simp add: parse_csv_line_def)

text \<open>
  C3. The claim asks for a string cell to be wrapped in double quotes, with each quote
  doubled and each newline replaced by backslash and \<open>n\<close>, exactly when it contains a
  comma, a newline or a double quote, and for the field parser to undo this. The code
  does not: \<open>_encode_uniform_array\<close> tests for a comma or a newline only, so the cell
  \<open>x"y\<close> of a bare table is emitted as it is; \<open>_parse_csv_line\<close> drops every double
  quote and keeps backslash and \<open>n\<close> as two characters, so the cell of \<open>p,"q"\<close>, a
  newline and \<open>r\<close>, which the encoder wraps and escapes, comes back as \<open>p,q\<close>,
  backslash, \<open>nr\<close>; \<open>_parse_value\<close>, the parser of a key/value line, undoes the same
  escaping; and \<open>_encode_tabular_object\<close> wraps the cell \<open>p,"q"\<close> of a keyed table without
  doubling its quotes, so that its row line is read back as \<open>p,q\<close>.
\<close>

theorem field_quoting:
  "encode sample_builtins default_config
      (PList [PDict [(''a'', PStr [CHR ''x'', DQ, CHR ''y''])], PDict [(''a'', PStr ''z'')]])
     = ''[2]{a}:'' @ [NL] @ ''  x'' @ [DQ] @ ''y'' @ [NL] @ ''  z'' \<and>
   encode sample_builtins default_config
      (PList [PDict [(''a'', PStr [CHR ''p'', CHR '','', DQ, CHR ''q'', DQ, NL, CHR ''r''])],
              PDict [(''a'', PStr ''z'')]])
     = ''[2]{a}:'' @ [NL] @ ''  '' @ [DQ] @ ''p,'' @ [DQ, DQ] @ ''q'' @ [DQ, DQ, BSL] @ ''nr'' @ [DQ]
         @ [NL] @ ''  z'' \<and>
   parse_csv_line ([DQ] @ ''p,'' @ [DQ, DQ] @ ''q'' @ [DQ, DQ, BSL] @ ''nr'' @ [DQ])
     = [''p,q'' @ [BSL] @ ''nr''] \<and>
   parse_value sample_builtins [[DQ] @ ''p,'' @ [DQ, DQ] @ ''q'' @ [DQ, DQ, BSL] @ ''nr'' @ [DQ]]
     = Inr (PStr [CHR ''p'', CHR '','', DQ, CHR ''q'', DQ, NL, CHR ''r'']) \<and>
   last (split_on NL (encode sample_builtins default_config
      (PDict [(''k'', PList [PDict [(''a'', PStr [CHR ''p'', CHR '','', DQ, CHR ''q'', DQ])]])])))
     = ''  '' @ [DQ] @ ''p,'' @ [DQ] @ ''q'' @ [DQ, DQ] \<and>
   parse_csv_line ([DQ] @ ''p,'' @ [DQ] @ ''q'' @ [DQ, DQ]) = [''p,q'']"
  by code_simp

section \<open>Tabular headers\<close>





section \<open>What the decoder does with text it cannot read as a table\<close>

lemma isdigit_no_dot_minus:
  "list_all isdigit_char v \<Longrightarrow> replace_char CHR ''-'' [] (replace_char CHR ''.'' [] v) = v"
proof -
  assume a: "list_all isdigit_char v"
  have "\<not> isdigit_char CHR ''-''" "\<not> isdigit_char CHR ''.''"
    by (simp_all add: isdigit_char_def)
  with a have "CHR ''-'' \<notin> set v" "CHR ''.'' \<notin> set v"
    by (auto simp: list_all_iff)
  then show ?thesis by (simp add: replace_char_absent)
qed

lemma not_number_like:
  "\<not> isdigit (replace_char CHR ''-'' [] (replace_char CHR ''.'' [] v)) \<Longrightarrow> \<not> isdigit v"
  using isdigit_no_dot_minus [of v] by (auto simp: isdigit_def)

lemma decode_empty: "strip s = [] \<Longrightarrow> decode B s = Inr (PDict [])"
  by (simp add: decode_def is_tabular_format_def endswith_def decode_key_value_def
      kv_step_def kv_init_def rstrip_def save_current_def)

text \<open>
  C2, as the code has it. The module defines no error of its own. The empty text, and a
  text of white space only, decodes to the empty dict; a first line of tabular shape that
  the header pattern does not match is handed to the key/value parser. A field string
  that is none of \<open>null\<close>, \<open>true\<close>, \<open>false\<close> in any letter case, and that does not
  consist of digits once its dots and minus signs are removed, comes back as the string
  it is (in a key/value block: unless it is wrapped in double quotes, which are removed).
\<close>

theorem decode_graceful:
  "decode B [] = Inr (PDict []) \<and>
   (strip s = [] \<longrightarrow> decode B s = Inr (PDict [])) \<and>
   (match_header h = None \<longrightarrow> decode_tabular B (h # rest) = decode_key_value B (h # rest)) \<and>
   (lower v \<noteq> ''null'' \<and> lower v \<noteq> ''true'' \<and> lower v \<noteq> ''false'' \<and>
    \<not> isdigit (replace_char CHR ''-'' [] (replace_char CHR ''.'' [] v)) \<longrightarrow>
      convert_value B v = Inr (PStr v) \<and>
      (\<not> (startswith v [DQ] \<and> endswith v [DQ]) \<longrightarrow> parse_value B [v] = Inr (PStr v)))"
proof -
  have a: "decode B [] = Inr (PDict [])"
    by (rule decode_empty) (simp add: strip_def lstrip_def rstrip_def)
  have b: "strip s = [] \<longrightarrow> decode B s = Inr (PDict [])"
    by (simp add: decode_empty)
  have c: "match_header h = None \<longrightarrow> decode_tabular B (h # rest) = decode_key_value B (h # rest)"
    by (simp add: decode_tabular_def)
  have d: "convert_value B v = Inr (PStr v) \<and>
      (\<not> (startswith v [DQ] \<and> endswith v [DQ]) \<longrightarrow> parse_value B [v] = Inr (PStr v))"
    if "lower v \<noteq> ''null''" "lower v \<noteq> ''true''" "lower v \<noteq> ''false''"
       "\<not> isdigit (replace_char CHR ''-'' [] (replace_char CHR ''.'' [] v))"
    using that not_number_like [of v] by (simp add: convert_value_def parse_value_def)
  from a b c d show ?thesis by blast
qed

theorem decode_graceful_witness:
  "lower ''Alice'' \<noteq> ''null'' \<and> lower ''Alice'' \<noteq> ''true'' \<and> lower ''Alice'' \<noteq> ''false'' \<and>
   \<not> isdigit (replace_char CHR ''-'' [] (replace_char CHR ''.'' [] ''Alice'')) \<and>
   convert_value sample_builtins ''Alice'' = Inr (PStr ''Alice'')"
proof -
  have h: "lower ''Alice'' \<noteq> ''null'' \<and> lower ''Alice'' \<noteq> ''true'' \<and> lower ''Alice'' \<noteq> ''false'' \<and>
   \<not> isdigit (replace_char CHR ''-'' [] (replace_char CHR ''.'' [] ''Alice''))"
    by code_simp
  from decode_graceful [of sample_builtins "[]" "[]" "[]" "''Alice''", THEN conjunct2, THEN conjunct2,
      THEN conjunct2, rule_format, OF h] h
  show ?thesis by simp
qed

text \<open>
  The empty text is not refused.
\<close>

theorem decode_empty_text_counterexample:
  "decode sample_builtins [] = Inr (PDict [])"
  by code_simp

section \<open>The format marker\<close>

text \<open>
  C9. \<open>parse_droid_response\<close> looks for the marker in the stripped response, but drops
  the first line of the response as it came. On the output of \<open>_format_toon\<close> the
  first line is the marker and the body is decoded; with one newline in front, the line
  dropped is the empty one, the marker stays in the text, and the table below it is read
  as a key/value block.
\<close>

theorem parse_droid_response_leading_newline:
  "parse_droid_response sample_builtins
     (format_toon sample_builtins default_config (PDict [(''items'', PList [PDict [(''a'', PInt 1)]])]))
     = Inr (PDict [(''items'', PList [PDict [(''a'', PInt 1)]])]) \<and>
   parse_droid_response sample_builtins
     (NL # format_toon sample_builtins default_config (PDict [(''items'', PList [PDict [(''a'', PInt 1)]])]))
     = Inr (PDict [(''items[1]{a}'', PInt 1)])"
  by code_simp

section \<open>Scalars through the codec\<close>

lemma set_strip: "set (strip s) \<subseteq> set s"
  by (auto simp: strip_def lstrip_def rstrip_def dest!: set_dropWhileD)

lemma split_on_absent: "c \<notin> set s \<Longrightarrow> split_on c s = [s]"
  by (induction s) auto

lemma decode_no_colon:
  assumes "NL \<notin> set t" "CHR '':'' \<notin> set t"
  shows "decode B t = Inr (PDict [])"
proof -
  from assms set_strip [of t] have n: "NL \<notin> set (strip t)" and c: "CHR '':'' \<notin> set (strip t)"
    by auto
  have r: "set (rstrip (strip t)) \<subseteq> set (strip t)"
    by (auto simp: rstrip_def dest!: set_dropWhileD)
  with c have c': "CHR '':'' \<notin> set (rstrip (strip t))" by auto
  have tab: "\<not> is_tabular_format (strip t)"
    using c by (cases "strip t" rule: rev_cases) (auto simp: is_tabular_format_def endswith_def)
  show ?thesis
    using tab c' by (simp add: decode_def split_on_absent [OF n] decode_key_value_def
        kv_step_def kv_init_def save_current_def Let_def)
qed

lemma digit_char_decimal: "d < 10 \<Longrightarrow> isdecimal (digit_char d)"
  unfolding digit_char_def isdecimal_def
  by (simp add: of_char_of [where ?'a = nat])

lemma digit_char_value: "d < 10 \<Longrightarrow> of_char (digit_char d) - 48 = d"
  unfolding digit_char_def
  by (simp add: of_char_of [where ?'a = nat])

lemma str_nat_decimal: "list_all isdecimal (str_nat n)"
  by (induction n rule: str_nat.induct) (subst str_nat.simps, simp add: digit_char_decimal)

lemma str_nat_nonempty: "str_nat n \<noteq> []"
  by (subst str_nat.simps) simp

lemma nat_of_digits_snoc: "nat_of_digits (s @ [c]) = 10 * nat_of_digits s + (of_char c - 48)"
  by (simp add: nat_of_digits_def)

lemma nat_of_digits_str_nat: "nat_of_digits (str_nat n) = n"
proof (induction n rule: str_nat.induct)
  case (1 n)
  show ?case
  proof (cases "n < 10")
    case True
    then show ?thesis
      by (subst str_nat.simps) (simp add: nat_of_digits_def digit_char_value)
  next
    case False
    then have "nat_of_digits (str_nat n) = 10 * (n div 10) + n mod 10"
      using "1.IH" by (subst str_nat.simps) (simp add: nat_of_digits_snoc digit_char_value)
    then show ?thesis by simp
  qed
qed

lemma decimal_facts:
  assumes "isdecimal c"
  shows "\<not> isspace c" "c \<noteq> CHR '':''" "c \<noteq> NL" "c \<noteq> DQ" "lower_char c = c" "isdigit_char c"
    "c \<noteq> CHR ''n''" "c \<noteq> CHR ''t''" "c \<noteq> CHR ''f''"
  using assms by (auto simp: isdecimal_def isspace_def lower_char_def isdigit_char_def Let_def)


lemma replace2_skip: "x \<noteq> a \<Longrightarrow> replace2 a b new (x # s) = x # replace2 a b new s"
  by (cases s) simp_all

lemma replace2_skip2: "y \<noteq> b \<Longrightarrow> replace2 a b new (x # y # s) = x # replace2 a b new (y # s)"
  by simp

lemma escape_concat: "escape s = concat (map escape_char s)"
  by (induction s) (auto simp: escape_def replace_char_def escape_char_def)

lemma unquote_escape:
  "replace2 DQ DQ [DQ] (concat (map escape_char s)) = replace_char NL [BSL, CHR ''n''] s"
  by (induction s) (auto simp: escape_char_def replace_char_def replace2_skip)

lemma replace_char_Nil: "replace_char a new [] = []"
  by (simp add: replace_char_def)

lemma replace_char_Cons:
  "replace_char a new (x # s) = (if x = a then new else [x]) @ replace_char a new s"
  by (simp add: replace_char_def)

lemma hd_newline_escaped:
  "replace_char NL [BSL, CHR ''n''] s = y # r \<Longrightarrow> y = CHR ''n'' \<Longrightarrow> hd s = CHR ''n''"
  by (cases s) (auto simp: replace_char_def split: if_splits)

lemma unescape_newlines:
  "\<not> has_pair BSL CHR ''n'' s \<Longrightarrow>
   replace2 BSL CHR ''n'' [NL] (replace_char NL [BSL, CHR ''n''] s) = s"
proof (induction s)
  case Nil
  then show ?case by (simp add: replace_char_Nil)
next
  case (Cons x s)
  have rest: "\<not> has_pair BSL CHR ''n'' s" using Cons.prems by (cases s) auto
  note ih = Cons.IH [OF rest]
  show ?case
  proof (cases "x = NL")
    case True
    then show ?thesis using ih by (simp add: replace_char_Cons)
  next
    case nl: False
    show ?thesis
    proof (cases "x = BSL")
      case False
      then show ?thesis using nl ih by (simp add: replace_char_Cons replace2_skip)
    next
      case True
      show ?thesis
      proof (cases "replace_char NL [BSL, CHR ''n''] s")
        case Nil
        with ih have "s = []" by simp
        then show ?thesis by (simp add: replace_char_Cons replace_char_Nil)
      next
        case (Cons y r)
        have "y \<noteq> CHR ''n''"
        proof
          assume "y = CHR ''n''"
          with Cons have "hd s = CHR ''n''" by (rule hd_newline_escaped)
          moreover have "s \<noteq> []" using Cons by (auto simp: replace_char_Nil)
          ultimately show False using Cons.prems True by (cases s) auto
        qed
        then have "replace2 BSL CHR ''n'' [NL] (x # y # r) = x # replace2 BSL CHR ''n'' [NL] (y # r)"
          by simp
        moreover have "replace_char NL [BSL, CHR ''n''] (x # s) = x # y # r"
          using nl Cons by (simp add: replace_char_Cons)
        ultimately show ?thesis using ih Cons by simp
      qed
    qed
  qed
qed

lemma unescape_escape: "\<not> has_pair BSL CHR ''n'' s \<Longrightarrow> unescape (escape s) = s"
  by (simp add: unescape_def escape_concat unquote_escape unescape_newlines)

lemma escape_no_newline: "NL \<notin> set (escape s)"
  by (induction s) (auto simp: escape_concat escape_char_def)


lemma lstrip_id: "s \<noteq> [] \<Longrightarrow> \<not> isspace (hd s) \<Longrightarrow> lstrip s = s"
  by (cases s) (simp_all add: lstrip_def)

lemma rstrip_id: "s \<noteq> [] \<Longrightarrow> \<not> isspace (last s) \<Longrightarrow> rstrip s = s"
  by (cases s rule: rev_cases) (simp_all add: rstrip_def)

lemma strip_id: "s \<noteq> [] \<Longrightarrow> \<not> isspace (hd s) \<Longrightarrow> \<not> isspace (last s) \<Longrightarrow> strip s = s"
  by (simp add: strip_def rstrip_id lstrip_id)

lemma strip_Nil: "strip [] = []"
  by (simp add: strip_def lstrip_def rstrip_def)

lemma endswith_last: "endswith s [c] \<Longrightarrow> last s = c"
  by (cases s rule: rev_cases) (auto simp: endswith_def)

lemma not_indented:
  "s \<noteq> [] \<Longrightarrow> \<not> isspace (hd s) \<Longrightarrow> \<not> startswith s ''  '' \<and> \<not> startswith s [CHR 0x09]"
  by (cases s) (auto simp: startswith_def isspace_def)

lemma split1_at_colon:
  "CHR '':'' \<notin> set k \<Longrightarrow> split1 CHR '':'' (k @ CHR '':'' # r) = [k, r]"
  by (induction k) (auto simp: split1_def)

lemma no_outer_space_strip: "no_outer_space k \<Longrightarrow> strip k = k"
  by (cases "k = []") (auto simp: no_outer_space_def strip_Nil strip_id)

lemma decode_field:
  assumes k: "no_outer_space k" "CHR '':'' \<notin> set k" "NL \<notin> set k"
    and sv: "sv \<noteq> []" "\<not> isspace (hd sv)" "\<not> isspace (last sv)" "NL \<notin> set sv"
      "last sv \<noteq> CHR '':''"
    and pv: "parse_value B [sv] = Inr v"
  shows "decode B (k @ '': '' @ sv) = Inr (PDict [(k, v)])"
proof -
  let ?t = "k @ '': '' @ sv"
  have ne: "?t \<noteq> []" by simp
  have hd_t: "\<not> isspace (hd ?t)"
    using k(1) by (cases k) (auto simp: no_outer_space_def isspace_def)
  have last_t: "last ?t = last sv" using sv(1) by simp
  have last_ns: "\<not> isspace (last ?t)" using sv(1,3) by simp
  have strip_t: "strip ?t = ?t"
    using ne hd_t last_ns by (rule strip_id)
  have rstrip_t: "rstrip ?t = ?t"
    using ne last_ns by (rule rstrip_id)
  have nl: "NL \<notin> set ?t" using k(3) sv(4) by simp
  have tab: "\<not> is_tabular_format ?t"
    using endswith_last [of ?t "CHR '':''"] last_t sv(5) by (auto simp: is_tabular_format_def)
  have ind: "\<not> startswith ?t ''  '' \<and> \<not> startswith ?t [CHR 0x09]"
    using ne hd_t by (rule not_indented)
  have colon: "CHR '':'' \<in> set ?t" by simp
  have sp: "split1 CHR '':'' ?t = [k, CHR '' '' # sv]"
    using split1_at_colon [OF k(2), of "CHR '' '' # sv"] by simp
  have strip_v: "strip (CHR '' '' # sv) = sv"
  proof -
    have "rstrip (CHR '' '' # sv) = CHR '' '' # sv"
      using sv(1,3) by (intro rstrip_id) simp_all
    moreover have "lstrip (CHR '' '' # sv) = lstrip sv"
      by (simp add: lstrip_def isspace_def)
    ultimately show ?thesis using sv(1,2) by (simp add: strip_def lstrip_id)
  qed
  have step: "kv_step B kv_init ?t =
      Inr \<lparr> result = [], current_key = Some k, current_value = [sv], in_multiline = False \<rparr>"
    unfolding kv_step_def Let_def rstrip_t
    using ne colon ind sp strip_v sv(1) no_outer_space_strip [OF k(1)]
    by (simp add: save_current_def kv_init_def)
  have "decode B ?t = decode_key_value B [?t]"
    unfolding decode_def strip_t split_on_absent [OF nl] using tab by simp
  also have "\<dots> = Inr (PDict [(k, v)])"
    unfolding decode_key_value_def kv_loop.simps step using pv by (simp add: save_current_def)
  finally show ?thesis .
qed


lemma lower_keywords:
  "lower ''null'' = ''null''" "lower ''true'' = ''true''" "lower ''false'' = ''false''"
  by code_simp+

lemma parse_value_keywords:
  "parse_value B [''null''] = Inr PNone"
  "parse_value B [''true''] = Inr (PBool True)"
  "parse_value B [''false''] = Inr (PBool False)"
  by (simp_all add: parse_value_def startswith_def lower_keywords)

lemma lower_decimal: "list_all isdecimal s \<Longrightarrow> lower s = s"
  by (induction s) (simp_all add: lower_def decimal_facts)

lemma parse_value_digits:
  assumes d: "list_all isdecimal s" and ne: "s \<noteq> []"
  shows "parse_value B [s] = Inr (PInt (int (nat_of_digits s)))"
proof -
  obtain x xs where s: "s = x # xs" using ne by (cases s) auto
  with d have x: "isdecimal x" by simp
  have q: "\<not> startswith s [DQ]"
    using decimal_facts(4) [OF x] s by (simp add: startswith_def)
  have kw: "lower s \<noteq> ''null''" "lower s \<noteq> ''true''" "lower s \<noteq> ''false''"
    unfolding lower_decimal [OF d] using decimal_facts(7,8,9) [OF x] s by auto
  have dig: "isdigit s"
    using d ne by (auto simp: isdigit_def list_all_iff decimal_facts(6))
  show ?thesis
    using q kw dig d ne by (simp add: parse_value_def py_int_def)
qed

lemma parse_value_quoted:
  "\<not> has_pair BSL CHR ''n'' s \<Longrightarrow> parse_value B [[DQ] @ escape s @ [DQ]] = Inr (PStr s)"
  by (simp add: parse_value_def startswith_def endswith_def unescape_escape)

lemma encode_single_field:
  "field_scalar v \<Longrightarrow> encode B c (PDict [(k, v)]) = k @ '': '' @ encode_simple_value B c v"
  by (cases v) (simp_all add: field_scalar_def is_tabular_def)

lemma field_text:
  assumes "field_scalar v" "\<not> compact_strings c"
  shows "encode_simple_value B c v \<noteq> [] \<and>
    \<not> isspace (hd (encode_simple_value B c v)) \<and>
    \<not> isspace (last (encode_simple_value B c v)) \<and>
    NL \<notin> set (encode_simple_value B c v) \<and>
    last (encode_simple_value B c v) \<noteq> CHR '':'' \<and>
    parse_value B [encode_simple_value B c v] = Inr v"
proof (cases v)
  case PNone
  then show ?thesis
    by (simp add: encode_simple_value_def isspace_def parse_value_keywords)
next
  case (PBool b)
  then show ?thesis
    by (cases b) (simp_all add: encode_simple_value_def py_str_def lower_ascii_simps isspace_def
        parse_value_keywords)
next
  case (PInt n)
  with assms have n: "0 \<le> n" by (simp add: field_scalar_def)
  let ?s = "str_nat (nat n)"
  have d: "list_all isdecimal ?s" by (rule str_nat_decimal)
  have ne: "?s \<noteq> []" by (rule str_nat_nonempty)
  have h: "isdecimal (hd ?s)" "isdecimal (last ?s)"
    using d ne by (auto simp: list_all_iff)
  have nl: "NL \<notin> set ?s"
    using d decimal_facts(3) by (auto simp: list_all_iff)
  have e: "encode_simple_value B c v = ?s"
    using PInt n by (simp add: encode_simple_value_def py_str_def str_int_def)
  have p: "parse_value B [?s] = Inr v"
    using parse_value_digits [OF d ne, of B] n PInt by (simp add: nat_of_digits_str_nat)
  show ?thesis
    unfolding e using ne nl p decimal_facts(1,2) [OF h(1)] decimal_facts(1,2) [OF h(2)] by simp
next
  case (PStr s)
  with assms have s: "\<not> has_pair BSL CHR ''n'' s" by (simp add: field_scalar_def)
  have e: "encode_simple_value B c v = [DQ] @ escape s @ [DQ]"
    using PStr assms(2) by (simp add: encode_simple_value_def encode_string_def)
  show ?thesis
    unfolding e using parse_value_quoted [OF s, of B] PStr escape_no_newline [of s]
    by (simp add: isspace_def)
qed (use assms in \<open>simp_all add: field_scalar_def\<close>)

lemma str_int_chars: "NL \<notin> set (str_int n) \<and> CHR '':'' \<notin> set (str_int n)"
proof -
  have "NL \<notin> set (str_nat m) \<and> CHR '':'' \<notin> set (str_nat m)" for m
    using str_nat_decimal [of m] decimal_facts(2,3) by (auto simp: list_all_iff)
  then show ?thesis by (simp add: str_int_def)
qed

lemma float_literal_chars:
  "float_literal s \<Longrightarrow> c \<in> set s \<Longrightarrow> isdecimal c \<or> c = CHR ''.'' \<or> c = CHR ''-''"
  by (cases s) (auto simp: float_literal_def Let_def list_all_iff split: if_splits)

lemma float_char_facts:
  assumes "isdecimal c \<or> c = CHR ''.'' \<or> c = CHR ''-''"
  shows "\<not> isspace c" "c \<noteq> CHR '':''" "c \<noteq> NL" "c \<noteq> DQ" "lower_char c = c"
    "c \<noteq> CHR ''n''" "c \<noteq> CHR ''t''" "c \<noteq> CHR ''f''"
  using assms by (auto simp: isdecimal_def isspace_def lower_char_def Let_def)

lemma replace_char_filter: "replace_char a [] s = filter (\<lambda>x. x \<noteq> a) s"
  by (induction s) (simp_all add: replace_char_def)

lemma float_literal_digits:
  assumes "float_literal s"
  shows "isdigit (replace_char CHR ''-'' [] (replace_char CHR ''.'' [] s))"
proof -
  let ?r = "filter (\<lambda>x. x \<noteq> CHR ''-'') (filter (\<lambda>x. x \<noteq> CHR ''.'') s)"
  have "\<exists>c \<in> set s. isdecimal c"
    using assms by (cases s) (auto simp: float_literal_def Let_def list_ex_iff split: if_splits)
  then obtain c where c: "c \<in> set s" "isdecimal c" by blast
  then have "c \<noteq> CHR ''.''" "c \<noteq> CHR ''-''" by (auto simp: isdecimal_def)
  with c have "c \<in> set ?r" by simp
  then have ne: "?r \<noteq> []" by (metis empty_iff empty_set)
  have "isdigit_char x" if "x \<in> set ?r" for x
    using float_literal_chars [OF assms, of x] that decimal_facts(6) [of x] by auto
  with ne show ?thesis by (simp add: replace_char_filter isdigit_def list_all_iff)
qed

lemma parse_value_float:
  assumes f: "float_literal s" and dot: "CHR ''.'' \<in> set s"
  shows "parse_value B [s] = Inr (PFloat (float_of_str B s))"
proof -
  obtain x xs where s: "s = x # xs" using dot by (cases s) auto
  note cx = float_char_facts [OF float_literal_chars [OF f, of x]]
  have x: "x \<in> set s" using s by simp
  have q: "\<not> startswith s [DQ]" using cx(4) [OF x] s by (simp add: startswith_def)
  have "lower_char x \<noteq> CHR ''n''" "lower_char x \<noteq> CHR ''t''" "lower_char x \<noteq> CHR ''f''"
    using cx(5,6,7,8) [OF x] by simp_all
  then have kw: "lower s \<noteq> ''null''" "lower s \<noteq> ''true''" "lower s \<noteq> ''false''"
    using s by (auto simp: lower_def)
  have "\<not> isdigit_char CHR ''.''" by (simp add: isdigit_char_def)
  with dot have nd: "\<not> isdigit s" by (auto simp: isdigit_def list_all_iff)
  show ?thesis
    using q kw nd float_literal_digits [OF f] f by (simp add: parse_value_def py_float_def)
qed

lemma encode_float_field:
  "encode B c (PDict [(k, PFloat x)]) = k @ '': '' @ float_str B x"
  by (simp add: is_tabular_def encode_simple_value_def py_str_def)

lemma float_field_round_trip:
  assumes f: "float_literal (float_str B x)" "CHR ''.'' \<in> set (float_str B x)"
      "float_of_str B (float_str B x) = x"
    and k: "no_outer_space k" "CHR '':'' \<notin> set k" "NL \<notin> set k"
  shows "decode B (encode B c (PDict [(k, PFloat x)])) = Inr (PDict [(k, PFloat x)])"
proof -
  let ?s = "float_str B x"
  have ne: "?s \<noteq> []" using f(2) by auto
  then have h: "hd ?s \<in> set ?s" "last ?s \<in> set ?s" by simp_all
  note ch = float_char_facts [OF float_literal_chars [OF f(1)]]
  have nl: "NL \<notin> set ?s" using ch(3) by blast
  have pv: "parse_value B [?s] = Inr (PFloat x)"
    using parse_value_float [OF f(1,2), of B] f(3) by simp
  show ?thesis
    unfolding encode_float_field
    using k ne ch(1) [OF h(1)] ch(1) [OF h(2)] nl ch(2) [OF h(2)] pv by (rule decode_field)
qed

text \<open>
  C4, as the code has it. \<open>decode\<close> returns dicts only, so decoding the text of a scalar
  never gives the scalar back: for \<open>None\<close>, a boolean and an integer the result is the
  empty dict. A scalar does come back as the value of a field: for a key with no colon,
  no newline and no white space at either end, and a value that is \<open>None\<close>, a boolean, an
  integer that is not negative, or a string with no backslash directly followed by
  \<open>n\<close>, encoding the one-field dict and decoding the text gives the dict back, the value
  with its type (\<open>compact_strings\<close> off, as in the default configuration). So does a float
  \<open>x\<close> whose text \<open>str(x)\<close> is in plain decimal notation and is read back by \<open>float\<close> as
  \<open>x\<close>, which the library routines guarantee; it comes back as a float.
\<close>

theorem scalar_round_trip:
  "decode B (encode B c PNone) = Inr (PDict []) \<and>
   decode B (encode B c (PBool b)) = Inr (PDict []) \<and>
   decode B (encode B c (PInt n)) = Inr (PDict []) \<and>
   (\<forall>r. decode B (encode B c v) = Inr r \<longrightarrow> (\<exists>obj. r = PDict obj)) \<and>
   (field_scalar v \<and> \<not> compact_strings c \<and>
    no_outer_space k \<and> CHR '':'' \<notin> set k \<and> NL \<notin> set k \<longrightarrow>
      decode B (encode B c (PDict [(k, v)])) = Inr (PDict [(k, v)])) \<and>
   (plain_decimal (float_str B x) \<and> float_of_str B (float_str B x) = x \<and>
    no_outer_space k \<and> CHR '':'' \<notin> set k \<and> NL \<notin> set k \<longrightarrow>
      decode B (encode B c (PDict [(k, PFloat x)])) = Inr (PDict [(k, PFloat x)]))"
proof -
  have a: "decode B (encode B c PNone) = Inr (PDict [])"
    by (simp add: decode_no_colon)
  have b: "decode B (encode B c (PBool b)) = Inr (PDict [])"
    by (cases b) (simp_all add: py_str_def decode_no_colon)
  have c: "decode B (encode B c (PInt n)) = Inr (PDict [])"
    using str_int_chars [of n] by (simp add: py_str_def decode_no_colon)
  have d: "\<forall>r. decode B (encode B c v) = Inr r \<longrightarrow> (\<exists>obj. r = PDict obj)"
    using decode_dict by blast
  have e: "decode B (encode B c (PDict [(k, v)])) = Inr (PDict [(k, v)])"
    if "field_scalar v" "\<not> compact_strings c" "no_outer_space k" "CHR '':'' \<notin> set k" "NL \<notin> set k"
  proof -
    note f = field_text [OF that(1,2), of B]
    show ?thesis
      unfolding encode_single_field [OF that(1)]
      by (rule decode_field [OF that(3,4,5)]) (use f in simp_all)
  qed
  have f: "decode B (encode B c (PDict [(k, PFloat x)])) = Inr (PDict [(k, PFloat x)])"
    if "plain_decimal (float_str B x)" "float_of_str B (float_str B x) = x"
       "no_outer_space k" "CHR '':'' \<notin> set k" "NL \<notin> set k"
    using that by (intro float_field_round_trip) (simp_all add: plain_decimal_def)
  show ?thesis
    apply (intro conjI)
         apply (rule a)
        apply (rule b)
       apply (rule c)
      apply (rule d)
     apply (rule impI, elim conjE, erule (4) e)
    apply (rule impI, elim conjE, erule (4) f)
    done
qed


theorem scalar_round_trip_witness:
  "field_scalar (PStr [CHR ''a'', CHR '','', DQ, CHR ''b'', DQ, NL, CHR ''C''] :: unit pyval) \<and>
   \<not> compact_strings default_config \<and>
   no_outer_space ''k'' \<and> CHR '':'' \<notin> set ''k'' \<and> NL \<notin> set ''k'' \<and>
   decode sample_builtins (encode sample_builtins default_config
       (PDict [(''k'', PStr [CHR ''a'', CHR '','', DQ, CHR ''b'', DQ, NL, CHR ''C''])]))
     = Inr (PDict [(''k'', PStr [CHR ''a'', CHR '','', DQ, CHR ''b'', DQ, NL, CHR ''C''])]) \<and>
   float_str sample_floats True = ''1.5'' \<and>
   plain_decimal (float_str sample_floats True) \<and>
   float_of_str sample_floats (float_str sample_floats True) = True \<and>
   decode sample_floats (encode sample_floats default_config (PDict [(''k'', PFloat True)]))
     = Inr (PDict [(''k'', PFloat True)])"
proof -
  have h: "field_scalar (PStr [CHR ''a'', CHR '','', DQ, CHR ''b'', DQ, NL, CHR ''C''] :: unit pyval) \<and>
     \<not> compact_strings default_config \<and>
     no_outer_space ''k'' \<and> CHR '':'' \<notin> set ''k'' \<and> NL \<notin> set ''k''"
    by (simp add: field_scalar_def default_config_def no_outer_space_def isspace_def)
  have s: "decode sample_builtins (encode sample_builtins default_config
       (PDict [(''k'', PStr [CHR ''a'', CHR '','', DQ, CHR ''b'', DQ, NL, CHR ''C''])]))
     = Inr (PDict [(''k'', PStr [CHR ''a'', CHR '','', DQ, CHR ''b'', DQ, NL, CHR ''C''])])"
    by (rule scalar_round_trip [where B = sample_builtins and c = default_config,
      THEN conjunct2, THEN conjunct2, THEN conjunct2, THEN conjunct2, THEN conjunct1,
      rule_format, OF h])
  have t: "float_str sample_floats True = ''1.5''" by (simp add: sample_floats_def)
  have g: "plain_decimal (float_str sample_floats True) \<and>
     float_of_str sample_floats (float_str sample_floats True) = True \<and>
     no_outer_space ''k'' \<and> CHR '':'' \<notin> set ''k'' \<and> NL \<notin> set ''k''"
    by code_simp
  have f: "decode sample_floats (encode sample_floats default_config (PDict [(''k'', PFloat True)]))
     = Inr (PDict [(''k'', PFloat True)])"
    by (rule scalar_round_trip [where B = sample_floats and c = default_config,
      THEN conjunct2, THEN conjunct2, THEN conjunct2, THEN conjunct2, THEN conjunct2,
      rule_format, OF g])
  from h s t g f show ?thesis by blast
qed

text \<open>
  A top-level integer decodes to the empty dict, and a top-level string with a colon to a
  dict keyed by the text before the colon.
\<close>

theorem scalar_round_trip_counterexample:
  "decode sample_builtins (encode sample_builtins default_config (PInt 5)) = Inr (PDict []) \<and>
   decode sample_builtins (encode sample_builtins default_config (PStr ''a:b''))
     = Inr (PDict [([DQ, CHR ''a''], PStr [CHR ''b'', DQ])])"
  by code_simp

section \<open>Keyed tables through the codec\<close>

lemma filter_rev_upt_first:
  assumes "a \<le> m" "m < L" "P m" "\<forall>n. m < n \<and> n < L \<longrightarrow> \<not> P n"
  shows "filter P (rev [a..<L]) = m # filter P (rev [a..<m])"
  using assms
proof (induction L)
  case 0
  then show ?case by simp
next
  case (Suc L)
  show ?case
  proof (cases "m = L")
    case True
    then show ?thesis using Suc.prems by simp
  next
    case False
    then have "m < L" using Suc.prems by simp
    moreover have "\<not> P L" using Suc.prems \<open>m < L\<close> by simp
    moreover have "a \<le> L" using Suc.prems \<open>m < L\<close> by simp
    ultimately show ?thesis using Suc by simp
  qed
qed

lemma match_columns_exact:
  assumes "cols \<noteq> []" "NL \<notin> set cols"
  shows "match_columns (cols @ ''}:'') = Some cols"
proof -
  let ?u = "cols @ ''}:''"
  let ?P = "\<lambda>n. take 2 (drop n ?u) = ''}:'' \<and> NL \<notin> set (take n ?u)"
  have m: "1 \<le> length cols" using assms(1) by (cases cols) simp_all
  have "filter ?P (rev [1..<length ?u]) = length cols # filter ?P (rev [1..<length cols])"
  proof (rule filter_rev_upt_first [OF m])
    show "length cols < length ?u" by simp
    show "?P (length cols)" using assms(2) by simp
    show "\<forall>n. length cols < n \<and> n < length ?u \<longrightarrow> \<not> ?P n"
    proof (intro allI impI)
      fix n assume "length cols < n \<and> n < length ?u"
      then have "n = Suc (length cols)" by simp
      then show "\<not> ?P n" by simp
    qed
  qed
  then show ?thesis by (simp add: match_columns_def)
qed

lemma match_tail_exact:
  assumes "list_all isdecimal ds" "ds \<noteq> []" "cols \<noteq> []" "NL \<notin> set cols"
  shows "match_tail (''['' @ ds @ '']{'' @ cols @ ''}:'') = Some (ds, cols)"
proof -
  have nd: "\<not> isdecimal CHR '']''" by (simp add: isdecimal_def)
  have tw: "takeWhile isdecimal (ds @ CHR '']'' # r) = ds" for r
    using assms(1) nd by (induction ds) simp_all
  have dw: "dropWhile isdecimal (ds @ CHR '']'' # r) = CHR '']'' # r" for r
    using assms(1) nd by (induction ds) simp_all
  show ?thesis
    using assms(2) match_columns_exact [OF assms(3,4)]
    by (simp add: match_tail_def tw dw)
qed

lemma match_tail_needs_bracket: "match_tail s \<noteq> None \<Longrightarrow> s \<noteq> [] \<and> hd s = CHR ''[''"
  by (cases s) (auto simp: match_tail_def split: if_splits)

lemma match_header_exact:
  assumes k: "k \<noteq> []" "NL \<notin> set k"
    and ds: "list_all isdecimal ds" "ds \<noteq> []"
    and cols: "cols \<noteq> []" "NL \<notin> set cols" "CHR ''['' \<notin> set cols"
  shows "match_header (k @ ''['' @ ds @ '']{'' @ cols @ ''}:'') = Some (k, ds, cols)"
proof -
  let ?r = "''['' @ ds @ '']{'' @ cols @ ''}:''"
  let ?h = "k @ ?r"
  let ?P = "\<lambda>n. NL \<notin> set (take n ?h) \<and> match_tail (drop n ?h) \<noteq> None"
  have mt: "match_tail ?r = Some (ds, cols)" by (rule match_tail_exact [OF ds cols(1,2)])
  have nb: "CHR ''['' \<notin> set (ds @ '']{'' @ cols @ ''}:'')"
    using ds(1) cols(3) by (auto simp: list_all_iff isdecimal_def)
  have m: "1 \<le> length k" using k(1) by (cases k) simp_all
  have "filter ?P (rev [1..<length ?h]) = length k # filter ?P (rev [1..<length k])"
  proof (rule filter_rev_upt_first [OF m])
    show "length k < length ?h" by simp
    show "?P (length k)" using k(2) mt by simp
    show "\<forall>n. length k < n \<and> n < length ?h \<longrightarrow> \<not> ?P n"
    proof (intro allI impI)
      fix n assume n: "length k < n \<and> n < length ?h"
      then obtain j where j: "n = length k + Suc j" by (metis less_imp_Suc_add add_Suc_right)
      have d: "drop n ?h = drop j (ds @ '']{'' @ cols @ ''}:'')" using j by simp
      have "match_tail (drop n ?h) = None"
      proof (rule ccontr)
        assume "match_tail (drop n ?h) \<noteq> None"
        from match_tail_needs_bracket [OF this]
        have "drop n ?h \<noteq> []" "hd (drop n ?h) = CHR ''[''" by simp_all
        then have "CHR ''['' \<in> set (drop n ?h)" by (metis hd_in_set)
        then have "CHR ''['' \<in> set (ds @ '']{'' @ cols @ ''}:'')"
          unfolding d by (rule in_set_dropD)
        with nb show False by simp
      qed
      then show "\<not> ?P n" by simp
    qed
  qed
  then show ?thesis using mt by (simp add: match_header_def)
qed

lemma split_on_append: "c \<notin> set x \<Longrightarrow> split_on c (x @ c # r) = x # split_on c r"
  by (induction x) auto

lemma split_on_join:
  "ls \<noteq> [] \<Longrightarrow> \<forall>l \<in> set ls. c \<notin> set l \<Longrightarrow> split_on c (join [c] ls) = ls"
proof (induction "[c]" ls rule: join.induct)
  case 1
  then show ?case by simp
next
  case (2 x)
  then show ?case by (simp add: split_on_absent)
next
  case (3 x y ys)
  then show ?case by (simp add: split_on_append)
qed

lemma join_hd: "x \<noteq> [] \<Longrightarrow> hd (join sep (x # xs)) = hd x"
  by (cases xs) simp_all

lemma join_nonempty: "x \<noteq> [] \<Longrightarrow> join sep (x # xs) \<noteq> []"
  by (cases xs) simp_all

lemma join_last_nonempty: "xs \<noteq> [] \<Longrightarrow> last xs \<noteq> [] \<Longrightarrow> join sep xs \<noteq> []"
  by (induction sep xs rule: join.induct) simp_all

lemma join_last:
  "xs \<noteq> [] \<Longrightarrow> last xs \<noteq> [] \<Longrightarrow> last (join sep xs) = last (last xs)"
proof (induction sep xs rule: join.induct)
  case (3 sep x y ys)
  then have "join sep (y # ys) \<noteq> []" using join_last_nonempty [of "y # ys" sep] by simp
  with 3 show ?case by simp
qed simp_all

lemma join_set: "set (join sep xs) \<subseteq> set sep \<union> \<Union> (set ` set xs)"
  by (induction sep xs rule: join.induct) auto

lemma convert_value_digits:
  assumes d: "list_all isdecimal s" and ne: "s \<noteq> []"
  shows "convert_value B s = Inr (PInt (int (nat_of_digits s)))"
proof -
  obtain x xs where s: "s = x # xs" using ne by (cases s) auto
  with d have x: "isdecimal x" by simp
  have kw: "lower s \<noteq> ''null''" "lower s \<noteq> ''true''" "lower s \<noteq> ''false''"
    unfolding lower_decimal [OF d] using decimal_facts(7,8,9) [OF x] s by auto
  have dig: "isdigit s"
    using d ne by (auto simp: isdigit_def list_all_iff decimal_facts(6))
  show ?thesis
    using kw dig d ne by (simp add: convert_value_def py_int_def)
qed

lemma convert_cell: "table_cell v \<Longrightarrow> convert_value B (py_str B v) = Inr v"
proof (cases v)
  case (PBool b)
  then show ?thesis
    by (cases b) (simp_all add: py_str_def convert_value_def lower_ascii_simps)
next
  case (PInt n)
  assume "table_cell v"
  with PInt have n: "0 \<le> n" by (simp add: table_cell_def)
  show ?thesis
    using convert_value_digits [OF str_nat_decimal str_nat_nonempty, of B "nat n"] n PInt
    by (simp add: py_str_def str_int_def nat_of_digits_str_nat)
next
  case (PStr s)
  assume "table_cell v"
  with PStr have p: "plain_text s" by (simp add: table_cell_def)
  then show ?thesis
    using PStr not_number_like [of s] by (simp add: py_str_def convert_value_def plain_text_def)
qed (simp_all add: table_cell_def)

lemma cell_text_facts:
  assumes "table_cell v"
  shows "DQ \<notin> set (py_str B v)" "NL \<notin> set (py_str B v)" "py_str B v \<noteq> []"
    "\<not> isspace (hd (py_str B v))" "\<not> isspace (last (py_str B v))"
    "(\<exists>s. v = PStr s) \<or> (CHR '','' \<notin> set (py_str B v) \<and> CHR '' '' \<notin> set (py_str B v))"
proof -
  have "DQ \<notin> set (py_str B v) \<and> NL \<notin> set (py_str B v) \<and> py_str B v \<noteq> [] \<and>
    \<not> isspace (hd (py_str B v)) \<and> \<not> isspace (last (py_str B v)) \<and>
    ((\<exists>s. v = PStr s) \<or> (CHR '','' \<notin> set (py_str B v) \<and> CHR '' '' \<notin> set (py_str B v)))"
  proof (cases v)
    case (PBool b)
    then show ?thesis by (cases b) (simp_all add: py_str_def isspace_def)
  next
    case (PInt n)
    with assms have n: "0 \<le> n" by (simp add: table_cell_def)
    let ?s = "str_nat (nat n)"
    have d: "list_all isdecimal ?s" by (rule str_nat_decimal)
    have ne: "?s \<noteq> []" by (rule str_nat_nonempty)
    have h: "isdecimal (hd ?s)" "isdecimal (last ?s)"
      using d ne by (auto simp: list_all_iff)
    have c: "\<forall>x \<in> set ?s. x \<noteq> DQ \<and> x \<noteq> NL \<and> x \<noteq> CHR '','' \<and> x \<noteq> CHR '' ''"
      using d by (auto simp: list_all_iff isdecimal_def)
    have e: "py_str B v = ?s" using PInt n by (simp add: py_str_def str_int_def)
    show ?thesis
      unfolding e using ne c decimal_facts(1) [OF h(1)] decimal_facts(1) [OF h(2)] by auto
  next
    case (PStr s)
    with assms have p: "plain_text s" by (simp add: table_cell_def)
    then show ?thesis
      using PStr by (auto simp: py_str_def plain_text_def no_outer_space_def)
  qed (use assms in \<open>simp_all add: table_cell_def\<close>)
  then show "DQ \<notin> set (py_str B v)" "NL \<notin> set (py_str B v)" "py_str B v \<noteq> []"
    "\<not> isspace (hd (py_str B v))" "\<not> isspace (last (py_str B v))"
    "(\<exists>s. v = PStr s) \<or> (CHR '','' \<notin> set (py_str B v) \<and> CHR '' '' \<notin> set (py_str B v))"
    by simp_all
qed

lemma tabular_field_cases:
  "tabular_field B v = py_str B v \<and> CHR '','' \<notin> set (py_str B v) \<or>
   tabular_field B v = [DQ] @ py_str B v @ [DQ]"
  if "table_cell v"
proof (cases v)
  case (PStr s)
  then show ?thesis by (simp add: tabular_field_def py_str_def)
next
  case (PBool b)
  then show ?thesis using cell_text_facts(6) [OF that, of B] by (simp add: tabular_field_def)
next
  case (PInt n)
  then show ?thesis using cell_text_facts(6) [OF that, of B] by (simp add: tabular_field_def)
qed (use that in \<open>simp_all add: table_cell_def\<close>)

lemma csv_cell:
  assumes "table_cell v"
  shows "csv_loop (tabular_field B v @ rest) vs cur False
     = csv_loop rest vs (cur @ py_str B v) False"
  using tabular_field_cases [OF assms, of B]
proof
  assume "tabular_field B v = py_str B v \<and> CHR '','' \<notin> set (py_str B v)"
  then show ?thesis
    using csv_loop_bare [OF cell_text_facts(1) [OF assms, of B], of rest vs cur] by simp
next
  assume q: "tabular_field B v = [DQ] @ py_str B v @ [DQ]"
  have "csv_loop (py_str B v @ DQ # rest) vs cur True = csv_loop (DQ # rest) vs (cur @ py_str B v) True"
    by (rule csv_loop_quoted [OF cell_text_facts(1) [OF assms]])
  then show ?thesis unfolding q by simp
qed

lemma csv_row:
  "cells \<noteq> [] \<Longrightarrow> \<forall>v \<in> set cells. table_cell v \<Longrightarrow>
   csv_loop (join '','' (map (tabular_field B) cells)) vs [] False = vs @ map (py_str B) cells"
proof (induction cells arbitrary: vs)
  case Nil
  then show ?case by simp
next
  case (Cons v cells)
  have v: "table_cell v" using Cons.prems by simp
  show ?case
  proof (cases cells)
    case Nil
    then show ?thesis using csv_cell [OF v, of B "[]" vs "[]"] by simp
  next
    case (Cons w ws)
    have "join '','' (map (tabular_field B) (v # cells))
        = tabular_field B v @ CHR '','' # join '','' (map (tabular_field B) cells)"
      using Cons by simp
    then show ?thesis
      using csv_cell [OF v, of B "CHR '','' # join '','' (map (tabular_field B) cells)" vs "[]"]
        Cons.IH [of "vs @ [py_str B v]"] Cons.prems Cons
      by simp
  qed
qed

lemma strip_indented:
  assumes "s \<noteq> []" "\<not> isspace (hd s)" "\<not> isspace (last s)"
  shows "strip (''  '' @ s) = s"
proof -
  have "rstrip (''  '' @ s) = ''  '' @ s" using assms by (intro rstrip_id) simp_all
  moreover have "lstrip (''  '' @ s) = s"
    using assms by (cases s) (simp_all add: lstrip_def isspace_def)
  ultimately show ?thesis by (simp add: strip_def)
qed

lemma dict_set_fresh: "k \<notin> fst ` set d \<Longrightarrow> dict_set d k v = d @ [(k, v)]"
  by (induction d) auto

lemma dict_fold_distinct:
  "distinct (map fst (acc @ ps)) \<Longrightarrow> foldl (\<lambda>d (k, v). dict_set d k v) acc ps = acc @ ps"
proof (induction ps arbitrary: acc)
  case Nil
  then show ?case by simp
next
  case (Cons p ps)
  obtain k v where p: "p = (k, v)" by (cases p)
  have "dict_set acc k v = acc @ [(k, v)]"
    using Cons.prems p by (intro dict_set_fresh) auto
  moreover have "distinct (map fst ((acc @ [(k, v)]) @ ps))" using Cons.prems p by simp
  ultimately show ?case using Cons.IH [of "acc @ [(k, v)]"] p by simp
qed

lemma dict_of_pairs_distinct: "distinct (map fst ps) \<Longrightarrow> dict_of_pairs ps = ps"
  using dict_fold_distinct [of "[]" ps] by (simp add: dict_of_pairs_def)

lemma zip_map_same: "zip xs (map f xs) = map (\<lambda>x. (x, f x)) xs"
  by (induction xs) simp_all

lemma convert_items_cells:
  "\<forall>c \<in> set cs. table_cell (f c) \<Longrightarrow>
   convert_items B (map (\<lambda>c. (c, py_str B (f c))) cs) = Inr (map (\<lambda>c. (c, f c)) cs)"
  by (induction cs) (simp_all add: convert_cell)

lemma tabular_field_facts:
  assumes "table_cell v"
  shows "tabular_field B v \<noteq> []" "\<not> isspace (hd (tabular_field B v))"
    "\<not> isspace (last (tabular_field B v))" "NL \<notin> set (tabular_field B v)"
proof -
  have dq: "\<not> isspace DQ" by (simp add: isspace_def)
  note f = cell_text_facts [OF assms, of B]
  from tabular_field_cases [OF assms, of B]
  have "tabular_field B v \<noteq> [] \<and> \<not> isspace (hd (tabular_field B v)) \<and>
    \<not> isspace (last (tabular_field B v)) \<and> NL \<notin> set (tabular_field B v)"
  proof
    assume "tabular_field B v = py_str B v \<and> CHR '','' \<notin> set (py_str B v)"
    then show ?thesis using f by simp
  next
    assume "tabular_field B v = [DQ] @ py_str B v @ [DQ]"
    then show ?thesis using f dq by simp
  qed
  then show "tabular_field B v \<noteq> []" "\<not> isspace (hd (tabular_field B v))"
    "\<not> isspace (last (tabular_field B v))" "NL \<notin> set (tabular_field B v)"
    by simp_all
qed

lemma row_text_facts:
  assumes cs: "cs \<noteq> []" and cells: "\<forall>c \<in> set cs. table_cell (dict_get d c (PStr []))"
  shows "row_text B cs d \<noteq> []" "\<not> isspace (hd (row_text B cs d))"
    "\<not> isspace (last (row_text B cs d))" "NL \<notin> set (row_text B cs d)"
    "parse_csv_line (row_text B cs d) = map (\<lambda>c. py_str B (dict_get d c (PStr []))) cs"
proof -
  let ?f = "\<lambda>col. tabular_field B (dict_get d col (PStr []))"
  obtain c cs' where c: "cs = c # cs'" using cs by (cases cs) auto
  have fc: "?f c \<noteq> []" "\<not> isspace (hd (?f c))"
    using tabular_field_facts(1,2) [of "dict_get d c (PStr [])" B] cells c by simp_all
  have r: "row_text B cs d = join '','' (?f c # map ?f cs')"
    by (simp add: row_text_def c)
  show "row_text B cs d \<noteq> []" unfolding r using fc(1) by (rule join_nonempty)
  show "\<not> isspace (hd (row_text B cs d))" unfolding r join_hd [OF fc(1)] by (rule fc(2))
  have l: "last (map ?f cs) = ?f (last cs)" using cs by (simp add: last_map)
  have lc: "last cs \<in> set cs" using cs by simp
  have fl: "?f (last cs) \<noteq> []" "\<not> isspace (last (?f (last cs)))"
    using tabular_field_facts(1,3) [of "dict_get d (last cs) (PStr [])" B] cells lc by simp_all
  have "last (row_text B cs d) = last (?f (last cs))"
    unfolding row_text_def using join_last [of "map ?f cs" "'',''"] cs l fl(1) by simp
  then show "\<not> isspace (last (row_text B cs d))" using fl(2) by simp
  have "NL \<notin> set (?f x)" if "x \<in> set cs" for x
    using tabular_field_facts(4) [of "dict_get d x (PStr [])" B] cells that by simp
  then show "NL \<notin> set (row_text B cs d)"
    unfolding row_text_def using join_set [of "'',''" "map ?f cs"] by auto
  have "csv_loop (join '','' (map (tabular_field B) (map (\<lambda>c. dict_get d c (PStr [])) cs))) [] [] False
      = [] @ map (py_str B) (map (\<lambda>c. dict_get d c (PStr [])) cs)"
    using cs cells by (intro csv_row) simp_all
  then show "parse_csv_line (row_text B cs d) = map (\<lambda>c. py_str B (dict_get d c (PStr []))) cs"
    by (simp add: parse_csv_line_def row_text_def comp_def)
qed

lemma decode_rows_table:
  assumes cs: "cs \<noteq> []" "distinct cs"
  shows "\<forall>d \<in> set ds. \<forall>c \<in> set cs. table_cell (dict_get d c (PStr [])) \<Longrightarrow>
    decode_rows B cs (map (\<lambda>d. ''  '' @ row_text B cs d) ds)
      = Inr (map (\<lambda>d. PDict (reorder cs d)) ds)"
proof (induction ds)
  case Nil
  show ?case by simp
next
  case (Cons d ds)
  have cells: "\<forall>c \<in> set cs. table_cell (dict_get d c (PStr []))" using Cons.prems by simp
  note f = row_text_facts [OF cs(1) cells, of B]
  have s: "strip (''  '' @ row_text B cs d) = row_text B cs d"
    using f(1,2,3) by (rule strip_indented)
  have z: "dict_of_pairs (zip cs (parse_csv_line (row_text B cs d)))
      = map (\<lambda>c. (c, py_str B (dict_get d c (PStr [])))) cs"
    unfolding f(5) zip_map_same using cs(2) by (intro dict_of_pairs_distinct) (simp add: comp_def)
  have ci: "convert_items B (map (\<lambda>c. (c, py_str B (dict_get d c (PStr [])))) cs) = Inr (reorder cs d)"
    unfolding reorder_def using cells by (rule convert_items_cells)
  have ih: "decode_rows B cs (map (\<lambda>d. ''  '' @ row_text B cs d) ds)
      = Inr (map (\<lambda>d. PDict (reorder cs d)) ds)"
    using Cons by simp
  have "decode_rows B cs ((''  '' @ row_text B cs d) # map (\<lambda>d. ''  '' @ row_text B cs d) ds)
      = Inr (PDict (reorder cs d) # map (\<lambda>d. PDict (reorder cs d)) ds)"
    unfolding decode_rows.simps s z ci ih using f(1) by simp
  then show ?case by simp
qed

lemma dict_items_dicts: "dict_items (map PDict ds) = ds"
  by (induction ds) (simp_all add: dict_items_def List.map_filter_simps)

lemma encode_keyed_table:
  assumes "ds \<noteq> []"
  shows "encode B c (PDict [(k, PList (map PDict ds))])
    = (k @ ''['' @ str_nat (length ds) @ '']{'' @ join '','' (map fst (hd ds)) @ ''}:'')
        @ NL # join [NL] (map (\<lambda>d. ''  '' @ row_text B (map fst (hd ds)) d) ds)"
proof -
  have "find_array [(k, PList (map PDict ds))] = Some (k, map PDict ds)"
    using assms by (simp add: find_array_def List.map_filter_simps)
  moreover have "hd (map PDict ds) = PDict (hd ds)" using assms by (simp add: hd_map)
  ultimately have "encode B c (PDict [(k, PList (map PDict ds))])
      = tabular_text B k (map PDict ds) (hd ds)"
    by (simp add: is_tabular_def)
  then show ?thesis
    by (simp add: tabular_text_def Let_def dict_items_dicts row_text_def)
qed

lemma endswith_append: "endswith (s @ p) p"
  by (simp add: endswith_def)

lemma keyed_table_decode:
  assumes k: "k \<noteq> []" "no_outer_space k" "NL \<notin> set k"
    and ds: "ds \<noteq> []"
    and cs: "cs \<noteq> []" "distinct cs" "\<forall>c \<in> set cs. column_name c"
    and cells: "\<forall>d \<in> set ds. \<forall>c \<in> set cs. table_cell (dict_get d c (PStr []))"
  shows "decode B ((k @ ''['' @ str_nat (length ds) @ '']{'' @ join '','' cs @ ''}:'')
        @ NL # join [NL] (map (\<lambda>d. ''  '' @ row_text B cs d) ds))
    = Inr (PDict [(k, PList (map (\<lambda>d. PDict (reorder cs d)) ds))])"
proof -
  let ?n = "str_nat (length ds)"
  let ?cols = "join '','' cs"
  let ?h = "k @ ''['' @ ?n @ '']{'' @ ?cols @ ''}:''"
  let ?rows = "map (\<lambda>d. ''  '' @ row_text B cs d) ds"
  let ?text = "?h @ NL # join [NL] ?rows"
  have hk: "\<not> isspace (hd k)" using k(1,2) by (simp add: no_outer_space_def)
  have nd: "list_all isdecimal ?n" "?n \<noteq> []" by (rule str_nat_decimal, rule str_nat_nonempty)
  have n_nl: "NL \<notin> set ?n" using nd(1) by (auto simp: list_all_iff isdecimal_def)
  obtain c0 cs' where c0: "cs = c0 # cs'" using cs(1) by (cases cs) auto
  have "c0 \<noteq> []" using cs(3) c0 by (simp add: column_name_def)
  then have cols_ne: "?cols \<noteq> []" unfolding c0 by (rule join_nonempty)
  have cols_nl: "NL \<notin> set ?cols" using join_set [of "'',''" cs] cs(3) by (auto simp: column_name_def)
  have cols_br: "CHR ''['' \<notin> set ?cols"
    using join_set [of "'',''" cs] cs(3) by (auto simp: column_name_def)
  have h_nl: "NL \<notin> set ?h" using k(3) n_nl cols_nl by simp
  have rows_ne: "?rows \<noteq> []" using ds by simp
  have row: "row_text B cs d \<noteq> [] \<and> \<not> isspace (last (row_text B cs d)) \<and> NL \<notin> set (row_text B cs d)"
    if "d \<in> set ds" for d
    using row_text_facts(1,3,4) [OF cs(1), of d B] cells that by simp
  have last_rows: "last ?rows = ''  '' @ row_text B cs (last ds)" using ds by (simp add: last_map)
  have ld: "last ds \<in> set ds" using ds by simp
  have j_ne: "join [NL] ?rows \<noteq> []"
    using rows_ne by (rule join_last_nonempty) (unfold last_rows, simp)
  have "last (join [NL] ?rows) = last (last ?rows)"
    using rows_ne by (rule join_last) (unfold last_rows, simp)
  then have j_last: "\<not> isspace (last (join [NL] ?rows))"
    unfolding last_rows using row [OF ld] by simp
  have strip_text: "strip ?text = ?text"
  proof (rule strip_id)
    show "?text \<noteq> []" by simp
    show "\<not> isspace (hd ?text)" using k(1) hk by simp
    show "\<not> isspace (last ?text)" using j_ne j_last by simp
  qed
  have rows_nl: "\<forall>l \<in> set ?rows. NL \<notin> set l" using row by auto
  have split: "split_on NL ?text = ?h # ?rows"
    using split_on_append [OF h_nl, of "join [NL] ?rows"] split_on_join [OF rows_ne rows_nl]
    by simp
  have "endswith ?h '':''"
    using endswith_append [of "k @ ''['' @ ?n @ '']{'' @ ?cols @ ''}''" "'':''"] by simp
  then have tab: "is_tabular_format ?h" by (simp add: is_tabular_format_def)
  have mh: "match_header ?h = Some (k, ?n, ?cols)"
    using k(1,3) nd cols_ne cols_nl cols_br by (rule match_header_exact)
  have "\<forall>l \<in> set cs. CHR '','' \<notin> set l" using cs(3) by (simp add: column_name_def)
  then have sp: "split_on CHR '','' ?cols = cs" using split_on_join [OF cs(1)] by simp
  have "map strip cs = cs"
    using cs(3) by (simp add: map_idI column_name_def no_outer_space_strip)
  then have columns: "map strip (split_on CHR '','' ?cols) = cs" unfolding sp .
  have rows: "decode_rows B cs ?rows = Inr (map (\<lambda>d. PDict (reorder cs d)) ds)"
    using cs(1,2) cells by (rule decode_rows_table)
  have sk: "strip k = k" using k(2) by (rule no_outer_space_strip)
  have "decode_tabular B (?h # ?rows) = Inr (PDict [(k, PList (map (\<lambda>d. PDict (reorder cs d)) ds))])"
    unfolding decode_tabular_def list.case mh option.case prod.case columns rows sum.case sk ..
  then show ?thesis
    unfolding decode_def strip_text split list.case using tab by simp
qed

lemma reorder_map_of:
  assumes "set (map fst d) = set cs"
  shows "map_of (reorder cs d) = map_of d"
proof
  fix x
  show "map_of (reorder cs d) x = map_of d x"
  proof (cases "x \<in> set cs")
    case True
    then have "x \<in> fst ` set d" using assms by simp
    then obtain v where v: "map_of d x = Some v"
      by (cases "map_of d x") (auto simp: map_of_eq_None_iff)
    have "map_of (reorder cs d) x = Some (dict_get d x (PStr []))"
      using True by (simp add: reorder_def map_of_map_restrict)
    then show ?thesis using v by (simp add: dict_get_def)
  next
    case False
    then have "x \<notin> fst ` set d" using assms by simp
    then have "map_of d x = None" by (simp add: map_of_eq_None_iff)
    moreover have "map_of (reorder cs d) x = None"
      using False by (simp add: reorder_def map_of_map_restrict)
    ultimately show ?thesis by simp
  qed
qed

text \<open>
  A dict that maps one key to a non-empty list of rows is encoded as a keyed table and
  decoded to the same key and the same rows, each restricted to the columns of the first
  row, in their order.
\<close>

lemma keyed_table_round_trip:
  assumes k: "k \<noteq> []" "no_outer_space k" "NL \<notin> set k"
    and ds: "ds \<noteq> []"
    and cs: "map fst (hd ds) \<noteq> []" "distinct (map fst (hd ds))"
      "\<forall>col \<in> set (map fst (hd ds)). column_name col"
    and cells: "\<forall>d \<in> set ds. \<forall>col \<in> set (map fst (hd ds)). table_cell (dict_get d col (PStr []))"
  shows "decode B (encode B c (PDict [(k, PList (map PDict ds))]))
    = Inr (PDict [(k, PList (map (\<lambda>d. PDict (reorder (map fst (hd ds)) d)) ds))])"
  unfolding encode_keyed_table [OF ds] using k ds cs cells by (rule keyed_table_decode)

section \<open>Uniform arrays through the codec\<close>












end
